theory Spec2Isabelle
  imports Complex_Main "HOL-Library.Word"
begin

unbundle bit_operations_syntax

section \<open>Python values\<close>

text \<open>
  A Python \<open>str\<close> is a sequence of Unicode code points, so it is modelled as a list of
  natural numbers (\<open>len\<close> counts code points). \<open>lit\<close> embeds an ASCII literal.
  A \<open>bytes\<close> object is a list of octets. An exception is represented by its message,
  the text \<open>str(e)\<close> yields, and a call that may raise returns \<open>pystr + 'a\<close>
  with \<open>Inl\<close> for the raised exception.
\<close>

type_synonym pystr = "nat list"
type_synonym bytes = "8 word list"

definition lit :: "string \<Rightarrow> pystr" where
  "lit s = map of_char s"

text \<open>\<open>str(n)\<close> for a non-negative integer: its decimal digits.\<close>

fun str_nat :: "nat \<Rightarrow> pystr" where
  "str_nat n = (if n < 10 then [48 + n] else str_nat (n div 10) @ [48 + n mod 10])"

declare str_nat.simps [simp del]

text \<open>
  \<open>str.isspace\<close> on one code point: the characters of bidirectional class WS, B or S
  and of general category Zs, as CPython's Unicode database lists them.
\<close>

definition isspace :: "nat \<Rightarrow> bool" where
  "isspace c \<longleftrightarrow>
     (0x09 \<le> c \<and> c \<le> 0x0D) \<or> (0x1C \<le> c \<and> c \<le> 0x20) \<or> c = 0x85 \<or> c = 0xA0 \<or>
     c = 0x1680 \<or> (0x2000 \<le> c \<and> c \<le> 0x200A) \<or> c = 0x2028 \<or> c = 0x2029 \<or>
     c = 0x202F \<or> c = 0x205F \<or> c = 0x3000"

text \<open>
  \<open>s.split()\<close> without arguments: skip a run of whitespace, stop at the end of the
  string, otherwise take the characters up to the next whitespace as one item, and repeat.
\<close>

function str_split :: "pystr \<Rightarrow> pystr list" where
  "str_split s =
     (case dropWhile isspace s of
        [] \<Rightarrow> []
      | c # cs \<Rightarrow> (c # takeWhile (\<lambda>x. \<not> isspace x) cs) # str_split (dropWhile (\<lambda>x. \<not> isspace x) cs))"
  by pat_completeness auto
termination
proof (relation "measure length")
  show "wf (measure length)" by simp
next
  fix s :: pystr and c cs
  assume d: "dropWhile isspace s = c # cs"
  have "length (dropWhile (\<lambda>x. \<not> isspace x) cs) \<le> length cs"
    by (rule length_dropWhile_le)
  also have "length cs < length (dropWhile isspace s)"
    by (simp add: d)
  also have "\<dots> \<le> length s"
    by (rule length_dropWhile_le)
  finally show "(dropWhile (\<lambda>x. \<not> isspace x) cs, s) \<in> measure length"
    by simp
qed

declare str_split.simps [simp del]

text \<open>\<open>s.strip()\<close> without arguments removes leading and trailing whitespace.\<close>

definition str_strip :: "pystr \<Rightarrow> pystr" where
  "str_strip s = rev (dropWhile isspace (rev (dropWhile isspace s)))"

section \<open>The PDF library\<close>

text \<open>
  The interpreter's \<open>fitz\<close> package is one of: absent, a stub package of the same name
  without \<open>open\<close>, or PyMuPDF, whose \<open>open\<close> either raises or yields a document.
  A document is the list of its pages; a page is what its \<open>get_text()\<close> does: raise
  (\<open>Inl\<close>) or return the page's text (\<open>Inr\<close>).
\<close>

type_synonym page = "pystr + pystr"

datatype fitz_module =
    NotInstalled
  | StubPackage
  | PyMuPDF "bytes \<Rightarrow> pystr + page list"

definition get_pymupdf :: "fitz_module \<Rightarrow> pystr + (bytes \<Rightarrow> pystr + page list)" where
  "get_pymupdf m =
     (case m of
        NotInstalled \<Rightarrow>
          Inl (lit ''PyMuPDF not installed. Install it with:  pip install PyMuPDF'')
      | StubPackage \<Rightarrow>
          Inl (lit (''Found a stub 'fitz' package without 'open()'. '' @
                    ''Uninstall it and install PyMuPDF:  pip uninstall -y fitz && pip install --upgrade PyMuPDF''))
      | PyMuPDF fitz_open \<Rightarrow> Inr fitz_open)"

section \<open>Document validator\<close>

text \<open>
  The loop \<open>for page in doc: full_text += page.get_text()\<close>. The third argument counts
  the calls of \<open>get_text\<close> made so far; the first exception ends the loop.
\<close>

fun read_pages :: "page list \<Rightarrow> pystr \<Rightarrow> nat \<Rightarrow> (pystr + pystr) \<times> nat" where
  "read_pages [] full_text calls = (Inr full_text, calls)"
| "read_pages (p # ps) full_text calls =
     (case p of
        Inl e \<Rightarrow> (Inl e, Suc calls)
      | Inr t \<Rightarrow> read_pages ps (full_text @ t) (Suc calls))"

definition page_limit_msg :: "nat \<Rightarrow> pystr" where
  "page_limit_msg page_count =
     lit ''PDF has '' @ str_nat page_count @ lit '' pages. Maximum allowed is 5.''"

definition word_limit_msg :: "nat \<Rightarrow> pystr" where
  "word_limit_msg word_count =
     lit ''PDF has '' @ str_nat word_count @ lit '' words. Maximum allowed is 10,000.''"

text \<open>
  The body of the \<open>try\<close> block of \<open>validate_pdf\<close>: the value returned or the exception
  raised, together with the number of \<open>get_text\<close> calls made.
\<close>

definition validate_pdf_try ::
  "fitz_module \<Rightarrow> bytes \<Rightarrow> (pystr + bool \<times> pystr \<times> pystr) \<times> nat" where
  "validate_pdf_try m file_content =
     (case get_pymupdf m of
        Inl e \<Rightarrow> (Inl e, 0)
      | Inr fitz_open \<Rightarrow>
          (case fitz_open file_content of
             Inl e \<Rightarrow> (Inl e, 0)
           | Inr doc \<Rightarrow>
               (let page_count = length doc in
                if page_count > 5 then (Inr (False, page_limit_msg page_count, []), 0)
                else
                  (case read_pages doc [] 0 of
                     (Inl e, calls) \<Rightarrow> (Inl e, calls)
                   | (Inr full_text, calls) \<Rightarrow>
                       (let word_count = length (str_split full_text) in
                        if word_count > 10000
                        then (Inr (False, word_limit_msg word_count, []), calls)
                        else (Inr (True, lit ''PDF is valid.'', full_text), calls))))))"

text \<open>The whole function: \<open>except Exception as e\<close> turns an exception into a triple.\<close>

definition validate_pdf_traced :: "fitz_module \<Rightarrow> bytes \<Rightarrow> (bool \<times> pystr \<times> pystr) \<times> nat" where
  "validate_pdf_traced m file_content =
     (case validate_pdf_try m file_content of
        (Inl e, calls) \<Rightarrow> ((False, lit ''Error reading PDF: '' @ e, []), calls)
      | (Inr r, calls) \<Rightarrow> (r, calls))"

definition validate_pdf :: "fitz_module \<Rightarrow> bytes \<Rightarrow> bool \<times> pystr \<times> pystr" where
  "validate_pdf m file_content = fst (validate_pdf_traced m file_content)"

definition get_text_calls :: "fitz_module \<Rightarrow> bytes \<Rightarrow> nat" where
  "get_text_calls m file_content = snd (validate_pdf_traced m file_content)"

section \<open>Chunker\<close>

text \<open>
  The keyword arguments that configure LangChain's \<open>RecursiveCharacterTextSplitter\<close>.
  Its \<open>split_text\<close> is library code and a parameter of the model: given the
  configuration and the text it raises or returns the chunks.
\<close>

record splitter_config =
  splitter_chunk_size :: int
  splitter_chunk_overlap :: int
  splitter_separators :: "pystr list"

type_synonym text_splitter = "splitter_config \<Rightarrow> pystr \<Rightarrow> pystr + pystr list"

text \<open>The body of the \<open>try\<close> block of \<open>process_pdf_and_split\<close>.\<close>

definition process_pdf_and_split_try ::
  "fitz_module \<Rightarrow> text_splitter \<Rightarrow> bytes \<Rightarrow> int \<Rightarrow> int \<Rightarrow> pystr + pystr list" where
  "process_pdf_and_split_try m split_text file_content chunk_size chunk_overlap =
     (case get_pymupdf m of
        Inl e \<Rightarrow> Inl e
      | Inr fitz_open \<Rightarrow>
          (case fitz_open file_content of
             Inl e \<Rightarrow> Inl e
           | Inr doc \<Rightarrow>
               (case fst (read_pages doc [] 0) of
                  Inl e \<Rightarrow> Inl e
                | Inr full_text \<Rightarrow>
                    (let splitter =
                       \<lparr>splitter_chunk_size = 1000, splitter_chunk_overlap = 200,
                        splitter_separators = [[0xA, 0xA], [0xA], lit ''.'', lit '' '', []]\<rparr>
                     in split_text splitter full_text))))"

text \<open>
  The whole function returns the chunks or raises \<open>ValueError\<close> (\<open>Inl\<close>, with its
  message).
\<close>

definition process_pdf_and_split ::
  "fitz_module \<Rightarrow> text_splitter \<Rightarrow> bytes \<Rightarrow> int \<Rightarrow> int \<Rightarrow> pystr + pystr list" where
  "process_pdf_and_split m split_text file_content chunk_size chunk_overlap =
     (case process_pdf_and_split_try m split_text file_content chunk_size chunk_overlap of
        Inl e \<Rightarrow> Inl (lit ''Error processing PDF: '' @ e)
      | Inr chunks \<Rightarrow> Inr chunks)"

section \<open>Content fingerprinter\<close>

text \<open>
  \<open>hashlib.sha256\<close> is the hash function SHA-256 of FIPS 180-4, written out here: the
  state is eight 32-bit words, the message is padded to a multiple of 64 bytes and
  consumed block by block, and \<open>hexdigest\<close> renders the final state as big-endian
  lowercase hexadecimal. \<open>sha256_K\<close> and \<open>sha256_H0\<close> are the standard's constants
  (its sections 4.2.2 and 5.3.3).
\<close>

type_synonym sha_state =
  "32 word \<times> 32 word \<times> 32 word \<times> 32 word \<times> 32 word \<times> 32 word \<times> 32 word \<times> 32 word"

definition rotr :: "nat \<Rightarrow> 32 word \<Rightarrow> 32 word" where
  "rotr n x = drop_bit n x OR push_bit (32 - n) x"

definition Ch :: "32 word \<Rightarrow> 32 word \<Rightarrow> 32 word \<Rightarrow> 32 word" where
  "Ch x y z = (x AND y) XOR (NOT x AND z)"

definition Maj :: "32 word \<Rightarrow> 32 word \<Rightarrow> 32 word \<Rightarrow> 32 word" where
  "Maj x y z = (x AND y) XOR (x AND z) XOR (y AND z)"

definition big_sigma0 :: "32 word \<Rightarrow> 32 word" where
  "big_sigma0 x = rotr 2 x XOR rotr 13 x XOR rotr 22 x"

definition big_sigma1 :: "32 word \<Rightarrow> 32 word" where
  "big_sigma1 x = rotr 6 x XOR rotr 11 x XOR rotr 25 x"

definition small_sigma0 :: "32 word \<Rightarrow> 32 word" where
  "small_sigma0 x = rotr 7 x XOR rotr 18 x XOR drop_bit 3 x"

definition small_sigma1 :: "32 word \<Rightarrow> 32 word" where
  "small_sigma1 x = rotr 17 x XOR rotr 19 x XOR drop_bit 10 x"

definition sha256_K :: "32 word list" where
  "sha256_K =
    [0x428A2F98, 0x71374491, 0xB5C0FBCF, 0xE9B5DBA5, 0x3956C25B, 0x59F111F1, 0x923F82A4, 0xAB1C5ED5,
     0xD807AA98, 0x12835B01, 0x243185BE, 0x550C7DC3, 0x72BE5D74, 0x80DEB1FE, 0x9BDC06A7, 0xC19BF174,
     0xE49B69C1, 0xEFBE4786, 0x0FC19DC6, 0x240CA1CC, 0x2DE92C6F, 0x4A7484AA, 0x5CB0A9DC, 0x76F988DA,
     0x983E5152, 0xA831C66D, 0xB00327C8, 0xBF597FC7, 0xC6E00BF3, 0xD5A79147, 0x06CA6351, 0x14292967,
     0x27B70A85, 0x2E1B2138, 0x4D2C6DFC, 0x53380D13, 0x650A7354, 0x766A0ABB, 0x81C2C92E, 0x92722C85,
     0xA2BFE8A1, 0xA81A664B, 0xC24B8B70, 0xC76C51A3, 0xD192E819, 0xD6990624, 0xF40E3585, 0x106AA070,
     0x19A4C116, 0x1E376C08, 0x2748774C, 0x34B0BCB5, 0x391C0CB3, 0x4ED8AA4A, 0x5B9CCA4F, 0x682E6FF3,
     0x748F82EE, 0x78A5636F, 0x84C87814, 0x8CC70208, 0x90BEFFFA, 0xA4506CEB, 0xBEF9A3F7, 0xC67178F2]"

definition sha256_H0 :: sha_state where
  "sha256_H0 =
    (0x6A09E667, 0xBB67AE85, 0x3C6EF372, 0xA54FF53A, 0x510E527F, 0x9B05688C, 0x1F83D9AB, 0x5BE0CD19)"

definition sha256_pad :: "bytes \<Rightarrow> bytes" where
  "sha256_pad msg =
     msg @ [0x80] @ replicate ((119 - length msg mod 64) mod 64) 0 @
     map (\<lambda>i. ucast (drop_bit (8 * i) (of_nat (8 * length msg) :: 64 word))) [7, 6, 5, 4, 3, 2, 1, 0]"

fun be_words :: "bytes \<Rightarrow> 32 word list" where
  "be_words (a # b # c # d # rest) =
     (push_bit 24 (ucast a) OR push_bit 16 (ucast b) OR push_bit 8 (ucast c) OR ucast d) # be_words rest"
| "be_words _ = []"

fun schedule :: "nat \<Rightarrow> 32 word list \<Rightarrow> 32 word list" where
  "schedule 0 w = w"
| "schedule (Suc n) w =
     schedule n
       (w @ [small_sigma1 (w ! (length w - 2)) + w ! (length w - 7) +
             small_sigma0 (w ! (length w - 15)) + w ! (length w - 16)])"

fun sha256_round :: "sha_state \<Rightarrow> 32 word \<times> 32 word \<Rightarrow> sha_state" where
  "sha256_round (a, b, c, d, e, f, g, h) (k, w) =
     (let t1 = h + big_sigma1 e + Ch e f g + k + w;
          t2 = big_sigma0 a + Maj a b c
      in (t1 + t2, a, b, c, d + t1, e, f, g))"

fun add_state :: "sha_state \<Rightarrow> sha_state \<Rightarrow> sha_state" where
  "add_state (a, b, c, d, e, f, g, h) (a', b', c', d', e', f', g', h') =
     (a + a', b + b', c + c', d + d', e + e', f + f', g + g', h + h')"

definition sha256_compress :: "sha_state \<Rightarrow> bytes \<Rightarrow> sha_state" where
  "sha256_compress H block =
     add_state H (foldl sha256_round H (zip sha256_K (schedule 48 (be_words block))))"

fun sha256_blocks :: "nat \<Rightarrow> sha_state \<Rightarrow> bytes \<Rightarrow> sha_state" where
  "sha256_blocks 0 H padded = H"
| "sha256_blocks (Suc n) H padded = sha256_blocks n (sha256_compress H (take 64 padded)) (drop 64 padded)"

definition sha256 :: "bytes \<Rightarrow> sha_state" where
  "sha256 msg = (let padded = sha256_pad msg in sha256_blocks (length padded div 64) sha256_H0 padded)"

definition hex_digit :: "nat \<Rightarrow> nat" where
  "hex_digit n = (if n < 10 then 48 + n else 87 + n)"

definition hex_word :: "32 word \<Rightarrow> pystr" where
  "hex_word w = map (\<lambda>i. hex_digit (unat (drop_bit (4 * i) w AND 15))) [7, 6, 5, 4, 3, 2, 1, 0]"

fun hexdigest :: "sha_state \<Rightarrow> pystr" where
  "hexdigest (a, b, c, d, e, f, g, h) =
     hex_word a @ hex_word b @ hex_word c @ hex_word d @ hex_word e @ hex_word f @ hex_word g @ hex_word h"

definition get_pdf_hash :: "bytes \<Rightarrow> pystr" where
  "get_pdf_hash file_bytes = hexdigest (sha256 file_bytes)"

section \<open>Vector store gateway\<close>

text \<open>
  The metadata filter \<open>{"doc_hash": {"$eq": h}}\<close>. An index object is what its
  \<open>query\<close> method does: given the query vector, \<open>top_k\<close> and the filter it raises or
  returns the list \<open>results.matches\<close>.
\<close>

datatype metadata_filter = DocHashEq pystr

type_synonym 'm index = "real list \<Rightarrow> nat \<Rightarrow> metadata_filter \<Rightarrow> pystr + 'm list"

definition is_document_already_indexed :: "'m index \<Rightarrow> pystr \<Rightarrow> bool" where
  "is_document_already_indexed index pdf_hash =
     (case index (replicate 1536 0) 1 (DocHashEq pdf_hash) of
        Inl e \<Rightarrow> False
      | Inr matches \<Rightarrow> length matches > 0)"

text \<open>
  Modelled from the spec: the vector index service, which is a remote service and not part
  of the source files. Section 6 gives its operations \<open>upsert(vector, metadata)\<close> and
  \<open>query_by_filter(metadata_filter, top_k) -> matches\<close>, section 4.4 the metadata
  \<open>{doc_hash: fingerprint, chunk_id: sequence index}\<close>. The service holds named
  indexes; an index holds the records upserted so far and counts the upsert calls; while
  an outage lasts its queries raise.
\<close>

record vector_record =
  rec_vector :: "real list"
  rec_text :: pystr
  rec_doc_hash :: pystr
  rec_chunk_id :: nat

record index_state =
  stored :: "vector_record list"
  upsert_calls :: nat
  outage :: "pystr option"

type_synonym pinecone = "pystr \<Rightarrow> index_state"

definition index_query :: "index_state \<Rightarrow> vector_record index" where
  "index_query ix vector top_k flt =
     (case outage ix of
        Some e \<Rightarrow> Inl e
      | None \<Rightarrow>
          (case flt of
             DocHashEq h \<Rightarrow> Inr (take top_k (filter (\<lambda>r. rec_doc_hash r = h) (stored ix)))))"

text \<open>
  Modelled from the spec: \<open>PineconeVectorStore.from_texts\<close>, library code. Section 4.4:
  for each chunk, compute its embedding vector and upsert it with its metadata. The first
  embedding that raises ends the call; what was upserted before stays.
\<close>

fun from_texts ::
  "(pystr \<Rightarrow> pystr + real list) \<Rightarrow> pystr \<Rightarrow> (pystr \<times> pystr \<times> nat) list \<Rightarrow> pinecone
     \<Rightarrow> (pystr + unit) \<times> pinecone" where
  "from_texts embedding index_name [] svc = (Inr (), svc)"
| "from_texts embedding index_name ((t, h, i) # rest) svc =
     (case embedding t of
        Inl e \<Rightarrow> (Inl e, svc)
      | Inr v \<Rightarrow>
          from_texts embedding index_name rest
            (svc(index_name :=
               (svc index_name)\<lparr>
                  stored := stored (svc index_name) @
                    [\<lparr>rec_vector = v, rec_text = t, rec_doc_hash = h, rec_chunk_id = i\<rparr>],
                  upsert_calls := Suc (upsert_calls (svc index_name))\<rparr>)))"

text \<open>
  \<open>store_chunks_in_pinecone\<close>: \<open>secret\<close> is what the lookup of the API key in
  \<open>st.secrets\<close> does. The call writes to the index \<open>"rag-index"\<close> whatever
  \<open>index_name\<close> is, and an exception is raised again after it is logged. The result is
  the exception or the success, and the state of the service afterwards.
\<close>

definition store_chunks_in_pinecone ::
  "(pystr + pystr) \<Rightarrow> pystr list \<Rightarrow> (pystr \<Rightarrow> pystr + real list) \<Rightarrow> pystr \<Rightarrow> pystr \<Rightarrow> pinecone
     \<Rightarrow> (pystr + unit) \<times> pinecone" where
  "store_chunks_in_pinecone secret chunks embedding_function index_name pdf_hash svc =
     (let metadatas = map (\<lambda>i. (pdf_hash, i)) [0..<length chunks] in
      case secret of
        Inl e \<Rightarrow> (Inl e, svc)
      | Inr pinecone_api_key \<Rightarrow>
          from_texts embedding_function (lit ''rag-index'') (zip chunks metadatas) svc)"

text \<open>
  Modelled from the spec: the ingestion path, the caller of
  \<open>is_document_already_indexed\<close> and \<open>store_chunks_in_pinecone\<close>, which is not among
  the source files. Section 4.4: before ingesting a document's chunks, query the index
  with the metadata filter and treat any returned match as "already indexed", skipping
  re-ingestion. The result says whether the chunks were stored (\<open>Some\<close> with the outcome
  of the store) or ingestion was skipped (\<open>None\<close>).
\<close>

definition ingest_document ::
  "(pystr + pystr) \<Rightarrow> (pystr \<Rightarrow> pystr + real list) \<Rightarrow> pystr \<Rightarrow> pystr list \<Rightarrow> pystr \<Rightarrow> pinecone
     \<Rightarrow> (pystr + unit) option \<times> pinecone" where
  "ingest_document secret embedding_function index_name chunks pdf_hash svc =
     (if is_document_already_indexed (index_query (svc index_name)) pdf_hash
      then (None, svc)
      else (case store_chunks_in_pinecone secret chunks embedding_function index_name pdf_hash svc of
              (r, svc') \<Rightarrow> (Some r, svc')))"

section \<open>Answer synthesizer\<close>

text \<open>
  The prompt template of \<open>create_rag_prompt_template\<close>, in three parts: the text before
  \<open>{context}\<close>, the text between \<open>{context}\<close> and \<open>{query}\<close>, and the text after
  \<open>{query}\<close>. Formatting the template puts the two values in their places.
\<close>

definition rag_template_head :: pystr where
  "rag_template_head =
     [0xA] @ lit ''You are **DocuChat**, an AI assistant that answers questions'' @
     lit '' about an uploaded PDF.'' @ [0xA] @ lit ''Follow these rules strictly:'' @
     [0xA, 0xA] @ lit ''1'' @ [0xFE0F, 0x20E3] @ lit '' *Grounding* '' @ [0x2013] @
     lit '' Base your answer primarily on the *Context* below.  '' @ [0xA] @ lit ''2'' @
     [0xFE0F, 0x20E3] @ lit '' *Enrichment* '' @ [0x2013] @
     lit '' You *may* add short, widely accepted background facts if th'' @
     lit ''ey make the answer clearer.  '' @ [0xA] @ lit ''   '' @ [0x2022] @
     lit '' Prefix each extra fact with *'' @ [0x1F4A1] @
     lit '' Extra insight:* so the user knows it'' @ [0x2019] @
     lit ''s outside the document.  '' @ [0xA] @ lit ''3'' @ [0xFE0F, 0x20E3] @
     lit '' *Formatting* '' @ [0x2013] @ lit '' Reply in *Markdown*:'' @ [0xA] @ lit ''   '' @
     [0x2022] @ lit '' Use bullet points or numbered lists for multiple items'' @ [0xA] @
     lit ''   '' @ [0x2022] @ lit '' Bold key terms or section names'' @ [0xA] @ lit ''4'' @
     [0xFE0F, 0x20E3] @ lit '' *Unknowns* '' @ [0x2013] @
     lit '' If the document doesn't help answer the question, you may s'' @
     lit ''till use your general knowledge to provide a helpful answer.'' @ lit ''  '' @
     [0xA] @ lit ''   '' @ [0x2022] @ lit '' Do **not** respond with: '' @ [0x60, 0x22] @
     lit ''The document doesn't contain that information.'' @ [0x22, 0x60] @
     lit '' unless instructed to.'' @ [0xA] @ lit ''---'' @ [0xA] @ lit ''Context:'' @ [0xA]"

definition rag_template_mid :: pystr where
  "rag_template_mid = [0xA, 0xA] @ lit ''Question:'' @ [0xA]"

definition rag_template_tail :: pystr where
  "rag_template_tail = [0xA, 0xA] @ lit ''Answer:'' @ [0xA]"

definition create_rag_prompt_template :: "pystr \<Rightarrow> pystr \<Rightarrow> pystr" where
  "create_rag_prompt_template context query =
     rag_template_head @ context @ rag_template_mid @ query @ rag_template_tail"

text \<open>\<open>sep.join(items)\<close>.\<close>

fun str_join :: "pystr \<Rightarrow> pystr list \<Rightarrow> pystr" where
  "str_join sep [] = []"
| "str_join sep [x] = x"
| "str_join sep (x # y # ys) = x @ sep @ str_join sep (y # ys)"

text \<open>
  A vector store is what retrieval from it does: given the query and \<open>k\<close> it raises or
  returns the \<open>page_content\<close> of the documents found. A language model raises or
  returns the text of its response to a prompt. \<open>query_llm_with_rag_traced\<close> returns the
  answer and the list of prompts the model was invoked with.
\<close>

type_synonym vector_store = "pystr \<Rightarrow> nat \<Rightarrow> pystr + pystr list"
type_synonym llm = "pystr \<Rightarrow> pystr + pystr"

definition query_llm_with_rag_traced ::
  "pystr \<Rightarrow> vector_store \<Rightarrow> llm \<Rightarrow> nat \<Rightarrow> pystr \<times> pystr list" where
  "query_llm_with_rag_traced query vector_store llm top_k =
     (case vector_store query top_k of
        Inl e \<Rightarrow> (lit ''Error querying LLM: '' @ e, [])
      | Inr retrieved_docs \<Rightarrow>
          (let context =
                 (if retrieved_docs \<noteq> [] then str_join [0xA, 0xA] retrieved_docs
                  else lit ''No relevant context found.'');
               prompt = create_rag_prompt_template context query
           in case llm prompt of
                Inl e \<Rightarrow> (lit ''Error querying LLM: '' @ e, [prompt])
              | Inr response \<Rightarrow> (str_strip response, [prompt])))"

definition query_llm_with_rag :: "pystr \<Rightarrow> vector_store \<Rightarrow> llm \<Rightarrow> nat \<Rightarrow> pystr" where
  "query_llm_with_rag query vector_store llm top_k =
     fst (query_llm_with_rag_traced query vector_store llm top_k)"

definition llm_prompts :: "pystr \<Rightarrow> vector_store \<Rightarrow> llm \<Rightarrow> nat \<Rightarrow> pystr list" where
  "llm_prompts query vector_store llm top_k =
     snd (query_llm_with_rag_traced query vector_store llm top_k)"

section \<open>Notions used to state the properties\<close>

text \<open>The characters of lowercase hexadecimal notation.\<close>

definition is_lower_hex :: "nat \<Rightarrow> bool" where
  "is_lower_hex c \<longleftrightarrow> c \<in> set (lit ''0123456789abcdef'')"

text \<open>
  SHA-256 as FIPS 180-4 defines it, for a message of whole bytes, stated section by
  section and independently of the computation \<open>sha256\<close> above. It shares with it the
  standard's word functions and constants only.
\<close>

text \<open>
  The number \<open>v\<close> written in \<open>n\<close> bytes, most significant byte first, and the number
  a sequence of bytes denotes when read that way.
\<close>

definition be_bytes :: "nat \<Rightarrow> nat \<Rightarrow> bytes" where
  "be_bytes n v = map (\<lambda>i. of_nat (v div 256 ^ (n - 1 - i) mod 256)) [0..<n]"

definition be_value :: "bytes \<Rightarrow> nat" where
  "be_value bs = foldl (\<lambda>v b. 256 * v + unat b) 0 bs"

text \<open>
  Padding (section 5.1.1): the message is followed by the bit 1 (with seven 0 bits, the
  byte \<open>0x80\<close>), by the smallest number of zero bytes that brings the length to 56
  modulo 64 bytes (448 modulo 512 bits), and by the length of the message in bits as a
  64-bit number.
\<close>

definition fips_pad :: "bytes \<Rightarrow> bytes" where
  "fips_pad M =
     M @ [0x80] @
     replicate (hd (filter (\<lambda>z. (length M + 1 + z) mod 64 = 56) [0..<64])) 0 @
     be_bytes 8 (8 * length M)"

text \<open>
  Parsing (section 5.2.1): \<open>fips_M padded i j\<close> is the \<open>j\<close>-th 32-bit word of the
  \<open>i\<close>-th 512-bit block of the padded message, blocks and words counted from 0.
\<close>

definition fips_M :: "bytes \<Rightarrow> nat \<Rightarrow> nat \<Rightarrow> 32 word" where
  "fips_M padded i j = of_nat (be_value (take 4 (drop (64 * i + 4 * j) padded)))"

text \<open>
  Hash computation (section 6.2.2). The message schedule \<open>W\<^sub>t\<close> of a block: its words
  for \<open>t < 16\<close>, and defined from four earlier entries for \<open>16 \<le> t \<le> 63\<close>.
\<close>

fun fips_W :: "(nat \<Rightarrow> 32 word) \<Rightarrow> nat \<Rightarrow> 32 word" where
  "fips_W M t =
     (if t < 16 then M t
      else small_sigma1 (fips_W M (t - 2)) + fips_W M (t - 7) +
           small_sigma0 (fips_W M (t - 15)) + fips_W M (t - 16))"

declare fips_W.simps [simp del]

text \<open>
  The working variables \<open>a, \<dots>, h\<close> after \<open>t\<close> rounds on a block, started from the
  hash value \<open>H\<close>.
\<close>

fun fips_vars :: "(nat \<Rightarrow> 32 word) \<Rightarrow> sha_state \<Rightarrow> nat \<Rightarrow> sha_state" where
  "fips_vars M H 0 = H"
| "fips_vars M H (Suc t) =
     (case fips_vars M H t of
        (a, b, c, d, e, f, g, h) \<Rightarrow>
          (let T1 = h + big_sigma1 e + Ch e f g + sha256_K ! t + fips_W M t;
               T2 = big_sigma0 a + Maj a b c
           in (T1 + T2, a, b, c, d + T1, e, f, g)))"

text \<open>
  The \<open>i\<close>-th intermediate hash value: the initial hash value, and after each block
  the sum of the previous value and the working variables after 64 rounds.
\<close>

fun fips_H :: "bytes \<Rightarrow> nat \<Rightarrow> sha_state" where
  "fips_H padded 0 = sha256_H0"
| "fips_H padded (Suc i) =
     (let H = fips_H padded i in
      case H of
        (H0, H1, H2, H3, H4, H5, H6, H7) \<Rightarrow>
          (case fips_vars (fips_M padded i) H 64 of
             (a, b, c, d, e, f, g, h) \<Rightarrow>
               (a + H0, b + H1, c + H2, d + H3, e + H4, f + H5, g + H6, h + H7)))"

text \<open>
  The message digest: the words of the final hash value, 256 bits, as 32 bytes.
\<close>

definition fips_sha256 :: "bytes \<Rightarrow> bytes" where
  "fips_sha256 M =
     (case fips_H (fips_pad M) (length (fips_pad M) div 64) of
        (H0, H1, H2, H3, H4, H5, H6, H7) \<Rightarrow>
          concat (map (\<lambda>w. be_bytes 4 (unat w)) [H0, H1, H2, H3, H4, H5, H6, H7]))"

text \<open>A byte string in hexadecimal, two lowercase digits for each byte.\<close>

definition hex_lower :: "bytes \<Rightarrow> pystr" where
  "hex_lower bs = concat (map (\<lambda>b. [hex_digit (unat b div 16), hex_digit (unat b mod 16)]) bs)"

text \<open>The number a string of decimal digits denotes.\<close>

definition digits_value :: "pystr \<Rightarrow> nat" where
  "digits_value ds = foldl (\<lambda>acc d. 10 * acc + (d - 48)) 0 ds"

text \<open>
  The number of whitespace-delimited tokens of a string, stated without reference to the
  splitting algorithm: a token is a maximal run of characters that are not whitespace, so
  there is one token for every position that holds a non-whitespace character and is
  either the first position or preceded by a whitespace character.
\<close>

definition ws_token_count :: "pystr \<Rightarrow> nat" where
  "ws_token_count s =
     length (filter (\<lambda>i. \<not> isspace (s ! i) \<and> (i = 0 \<or> isspace (s ! (i - 1)))) [0..<length s])"

text \<open>The same count, scanning left to right; the flag says whether a token may start.\<close>

fun count_starts :: "bool \<Rightarrow> pystr \<Rightarrow> nat" where
  "count_starts b [] = 0"
| "count_starts b (c # cs) = (if \<not> isspace c \<and> b then 1 else 0) + count_starts (isspace c) cs"

text \<open>A text of exactly \<open>n\<close> words, for concrete documents.\<close>

definition sample_words :: "nat \<Rightarrow> pystr" where
  "sample_words n = concat (replicate n (lit ''a ''))"

text \<open>
  Concrete documents: \<open>sample_texts pages words\<close> are the page texts of a document of
  \<open>pages\<close> pages (at least one) whose first page holds \<open>words\<close> words and whose
  other pages are empty.
\<close>

definition sample_texts :: "nat \<Rightarrow> nat \<Rightarrow> pystr list" where
  "sample_texts pages words = sample_words words # replicate (pages - 1) []"

section \<open>Auxiliary facts\<close>

lemma lit_Nil [simp]: "lit [] = []"
  by (simp add: lit_def)

lemma lit_Cons [simp]: "lit (c # cs) = of_char c # lit cs"
  by (simp add: lit_def)

lemma read_pages_texts:
  "read_pages (map Inr texts) acc n = (Inr (acc @ concat texts), n + length texts)"
  by (induction texts arbitrary: acc n) simp_all

lemma str_nat_digits: "c \<in> set (str_nat n) \<Longrightarrow> 48 \<le> c \<and> c \<le> 57"
proof (induction n arbitrary: c rule: str_nat.induct)
  case (1 n)
  show ?case
  proof (cases "n < 10")
    case True
    with "1.prems" show ?thesis by (simp add: str_nat.simps [of n])
  next
    case False
    have "set (str_nat n) = set (str_nat (n div 10)) \<union> {48 + n mod 10}"
      using False by (simp add: str_nat.simps [of n])
    with "1.prems" have "c \<in> set (str_nat (n div 10)) \<or> c = 48 + n mod 10"
      by blast
    then show ?thesis
    proof
      assume "c \<in> set (str_nat (n div 10))"
      with False "1.IH" show ?thesis by blast
    next
      assume "c = 48 + n mod 10"
      moreover have "n mod 10 < 10" by simp
      ultimately show ?thesis by linarith
    qed
  qed
qed

lemma digits_value_str_nat: "digits_value (str_nat n) = n"
proof (induction n rule: str_nat.induct)
  case (1 n)
  show ?case
  proof (cases "n < 10")
    case True
    then show ?thesis by (simp add: str_nat.simps [of n] digits_value_def)
  next
    case False
    with "1.IH" have "digits_value (str_nat (n div 10)) = n div 10" by simp
    with False show ?thesis
      by (simp add: str_nat.simps [of n] digits_value_def)
  qed
qed

lemma str_nat_inj: "str_nat a = str_nat b \<Longrightarrow> a = b"
  by (metis digits_value_str_nat)

lemma drop_digits:
  "dropWhile (\<lambda>c. 48 \<le> c \<and> c \<le> 57) (str_nat n @ 32 # rest) = 32 # rest"
proof -
  have "dropWhile (\<lambda>c. 48 \<le> c \<and> c \<le> 57) (str_nat n @ 32 # rest)
        = dropWhile (\<lambda>c. 48 \<le> c \<and> c \<le> 57) (32 # rest)"
    by (rule dropWhile_append2) (use str_nat_digits in blast)
  then show ?thesis by simp
qed

lemma page_msg_neq_word_msg: "page_limit_msg a \<noteq> word_limit_msg b"
proof
  assume "page_limit_msg a = word_limit_msg b"
  then have "str_nat a @ lit '' pages. Maximum allowed is 5.''
             = str_nat b @ lit '' words. Maximum allowed is 10,000.''"
    by (simp add: page_limit_msg_def word_limit_msg_def)
  then have "dropWhile (\<lambda>c. 48 \<le> c \<and> c \<le> 57) (str_nat a @ lit '' pages. Maximum allowed is 5.'')
             = dropWhile (\<lambda>c. 48 \<le> c \<and> c \<le> 57) (str_nat b @ lit '' words. Maximum allowed is 10,000.'')"
    by simp
  then show False
    by (simp add: drop_digits)
qed

lemma page_msg_inj: "page_limit_msg a = page_limit_msg b \<Longrightarrow> a = b"
  by (simp add: page_limit_msg_def str_nat_inj)

lemma word_msg_inj: "word_limit_msg a = word_limit_msg b \<Longrightarrow> a = b"
  by (simp add: word_limit_msg_def str_nat_inj)

lemma page_msg_neq_error: "page_limit_msg a \<noteq> lit ''Error reading PDF: '' @ e"
  by (simp add: page_limit_msg_def)

lemma word_msg_neq_error: "word_limit_msg a \<noteq> lit ''Error reading PDF: '' @ e"
  by (simp add: word_limit_msg_def)

lemma get_pymupdf_PyMuPDF [simp]: "get_pymupdf (PyMuPDF f) = Inr f"
  by (simp add: get_pymupdf_def)

lemma read_pages_fail:
  "read_pages (map Inr texts @ Inl e # rest) acc n = (Inl e, Suc (n + length texts))"
  by (induction texts arbitrary: acc n) simp_all

lemma pages_cases:
  "(\<exists>texts. doc = map Inr texts) \<or> (\<exists>texts e rest. doc = map Inr texts @ Inl e # rest)"
proof (induction doc)
  case Nil
  then show ?case by simp
next
  case (Cons p ps)
  show ?case
  proof (cases p)
    case (Inl e)
    then have "p # ps = map Inr [] @ Inl e # ps" by simp
    then show ?thesis by blast
  next
    case (Inr t)
    from Cons.IH show ?thesis
    proof
      assume "\<exists>texts. ps = map Inr texts"
      then obtain texts where "ps = map Inr texts" ..
      with Inr have "p # ps = map Inr (t # texts)" by simp
      then have "\<exists>texts. p # ps = map Inr texts" by (rule exI)
      then show ?thesis by (rule disjI1)
    next
      assume "\<exists>texts e rest. ps = map Inr texts @ Inl e # rest"
      then obtain texts e rest where "ps = map Inr texts @ Inl e # rest" by blast
      with Inr have "p # ps = map Inr (t # texts) @ Inl e # rest" by simp
      then have "\<exists>texts e rest. p # ps = map Inr texts @ Inl e # rest" by blast
      then show ?thesis by (rule disjI2)
    qed
  qed
qed

lemma validate_pdf_traced_open_fail:
  "fitz_open fc = Inl e \<Longrightarrow>
   validate_pdf_traced (PyMuPDF fitz_open) fc = ((False, lit ''Error reading PDF: '' @ e, []), 0)"
  by (simp add: validate_pdf_traced_def validate_pdf_try_def)

lemma validate_pdf_traced_many:
  "fitz_open fc = Inr doc \<Longrightarrow> 5 < length doc \<Longrightarrow>
   validate_pdf_traced (PyMuPDF fitz_open) fc = ((False, page_limit_msg (length doc), []), 0)"
  by (simp add: validate_pdf_traced_def validate_pdf_try_def)

lemma validate_pdf_traced_texts:
  "fitz_open fc = Inr (map Inr texts) \<Longrightarrow> length texts \<le> 5 \<Longrightarrow>
   validate_pdf_traced (PyMuPDF fitz_open) fc =
     (if 10000 < length (str_split (concat texts))
      then (False, word_limit_msg (length (str_split (concat texts))), [])
      else (True, lit ''PDF is valid.'', concat texts), length texts)"
  using read_pages_texts [of texts "[]" 0]
  by (simp add: validate_pdf_traced_def validate_pdf_try_def Let_def)

lemma validate_pdf_traced_page_fail:
  "fitz_open fc = Inr (map Inr texts @ Inl e # rest) \<Longrightarrow> length texts + length rest < 5 \<Longrightarrow>
   validate_pdf_traced (PyMuPDF fitz_open) fc =
     ((False, lit ''Error reading PDF: '' @ e, []), Suc (length texts))"
  using read_pages_fail [of texts e rest "[]" 0]
  by (simp add: validate_pdf_traced_def validate_pdf_try_def Let_def)

lemma validate_pdf_few_not_page_msg:
  assumes "fitz_open fc = Inr doc" "length doc \<le> 5"
  shows "validate_pdf (PyMuPDF fitz_open) fc \<noteq> (False, page_limit_msg k, t)"
proof -
  from pages_cases [of doc] show ?thesis
  proof (elim disjE exE)
    fix texts assume d: "doc = map Inr texts"
    with assms have "length texts \<le> 5" by simp
    with assms d validate_pdf_traced_texts [of fitz_open fc texts]
    have "validate_pdf (PyMuPDF fitz_open) fc =
            (False, word_limit_msg (length (str_split (concat texts))), []) \<or>
          validate_pdf (PyMuPDF fitz_open) fc = (True, lit ''PDF is valid.'', concat texts)"
      by (simp add: validate_pdf_def)
    with page_msg_neq_word_msg [of k] show ?thesis by (metis prod.inject)
  next
    fix texts e rest assume d: "doc = map Inr texts @ Inl e # rest"
    with assms have "length texts + length rest < 5" by simp
    with assms d validate_pdf_traced_page_fail [of fitz_open fc texts e rest]
    have "validate_pdf (PyMuPDF fitz_open) fc = (False, lit ''Error reading PDF: '' @ e, [])"
      by (simp add: validate_pdf_def)
    with page_msg_neq_error [of k e] show ?thesis by (metis prod.inject)
  qed
qed

lemma str_split_none:
  assumes "dropWhile isspace s = []"
  shows "str_split s = []"
  by (subst str_split.simps) (simp only: assms list.case)

lemma str_split_item:
  assumes "dropWhile isspace s = c # cs"
  shows "str_split s =
           (c # takeWhile (\<lambda>x. \<not> isspace x) cs) # str_split (dropWhile (\<lambda>x. \<not> isspace x) cs)"
  by (subst str_split.simps) (simp only: assms list.case)

lemma str_split_dropWhile: "str_split (dropWhile isspace s) = str_split s"
  by (simp add: str_split.simps [of s] str_split.simps [of "dropWhile isspace s"])

lemma count_starts_dropWhile: "count_starts True (dropWhile isspace s) = count_starts True s"
  by (induction s) simp_all

lemma count_starts_skip_True:
  "count_starts True (dropWhile (\<lambda>x. \<not> isspace x) cs) = count_starts False cs"
proof (induction cs)
  case Nil
  then show ?case by simp
next
  case (Cons c cs)
  then show ?case by (cases "isspace c") simp_all
qed

lemma length_str_split: "length (str_split s) = count_starts True s"
proof (induction s rule: str_split.induct)
  case (1 s)
  show ?case
  proof (cases "dropWhile isspace s")
    case Nil
    have "count_starts True (dropWhile isspace s) = 0" unfolding Nil by simp
    then have "count_starts True s = 0" by (simp add: count_starts_dropWhile)
    with str_split_none [OF Nil] show ?thesis by simp
  next
    case (Cons c cs)
    then have nc: "\<not> isspace c"
      by (metis hd_dropWhile list.sel(1) list.distinct(1))
    from Cons "1.IH" have ih:
      "length (str_split (dropWhile (\<lambda>x. \<not> isspace x) cs))
       = count_starts True (dropWhile (\<lambda>x. \<not> isspace x) cs)"
      by simp
    have "count_starts True s = count_starts True (c # cs)"
      using Cons count_starts_dropWhile [of s] by simp
    also have "\<dots> = Suc (count_starts False cs)"
      using nc by simp
    also have "\<dots> = Suc (length (str_split (dropWhile (\<lambda>x. \<not> isspace x) cs)))"
      using ih by (simp add: count_starts_skip_True)
    also have "\<dots> = length (str_split s)"
      by (simp add: str_split_item [OF Cons])
    finally show ?thesis by simp
  qed
qed

lemma token_starts_flag:
  "length (filter (\<lambda>i. \<not> isspace (s ! i) \<and> (if i = 0 then b else isspace (s ! (i - 1)))) [0..<length s])
   = count_starts b s"
proof (induction s arbitrary: b)
  case Nil
  then show ?case by simp
next
  case (Cons c cs)
  have upt: "[0..<length (c # cs)] = 0 # map Suc [0..<length cs]"
    by (simp add: upt_conv_Cons map_Suc_upt del: upt_Suc)
  have tail: "filter (\<lambda>i. \<not> isspace ((c # cs) ! i) \<and> (if i = 0 then b else isspace ((c # cs) ! (i - 1))))
                (map Suc [0..<length cs])
              = map Suc (filter (\<lambda>i. \<not> isspace (cs ! i) \<and> (if i = 0 then isspace c else isspace (cs ! (i - 1))))
                  [0..<length cs])"
    unfolding filter_map
    by (rule arg_cong [where f = "map Suc"], rule filter_cong) (auto simp: nth_Cons')
  show ?case
    unfolding upt
    using Cons.IH [of "isspace c"] by (simp add: tail del: upt_Suc)
qed

lemma ws_token_count_starts: "ws_token_count s = count_starts True s"
proof -
  have "(\<lambda>i. \<not> isspace (s ! i) \<and> (i = 0 \<or> isspace (s ! (i - 1))))
        = (\<lambda>i. \<not> isspace (s ! i) \<and> (if i = 0 then True else isspace (s ! (i - 1))))"
    by auto
  then show ?thesis
    unfolding ws_token_count_def using token_starts_flag [of s True] by simp
qed

lemma length_str_split_tokens: "length (str_split s) = ws_token_count s"
  by (simp add: length_str_split ws_token_count_starts)

lemma str_split_sample_step: "str_split (97 # 32 # rest) = [97] # str_split rest"
proof -
  have "str_split (97 # 32 # rest) = [97] # str_split (32 # rest)"
    by (simp add: str_split.simps [of "97 # 32 # rest"] isspace_def)
  also have "str_split (32 # rest) = str_split (dropWhile isspace (32 # rest))"
    by (simp only: str_split_dropWhile)
  also have "dropWhile isspace (32 # rest) = dropWhile isspace rest"
    by (simp add: isspace_def)
  finally show ?thesis by (simp add: str_split_dropWhile)
qed

lemma str_split_Nil: "str_split [] = []"
  by (simp add: str_split.simps [of "[]"])

lemma str_split_sample_words: "str_split (sample_words n @ rest) = replicate n [97] @ str_split rest"
  by (induction n) (simp_all add: sample_words_def str_split_sample_step)

lemma length_str_split_sample_words: "length (str_split (sample_words n)) = n"
  using str_split_sample_words [of n "[]"] by (simp add: str_split_Nil)

lemma concat_sample_texts: "concat (sample_texts pages words) = sample_words words"
  by (simp add: sample_texts_def)

lemma length_sample_texts: "0 < pages \<Longrightarrow> length (sample_texts pages words) = pages"
  by (simp add: sample_texts_def)

lemma ws_token_count_sample_words: "ws_token_count (sample_words n) = n"
  using length_str_split_tokens [of "sample_words n"] length_str_split_sample_words [of n] by simp

section \<open>Document validator: the page limit\<close>

text \<open>
  Claim C3, as amended. For every input that PyMuPDF opens, \<open>validate_pdf\<close> returns the
  failure \<open>(False, "PDF has N pages. Maximum allowed is 5.", "")\<close> with \<open>N\<close> the actual
  page count exactly when the page count exceeds 5, and any page-limit failure it returns
  cites the actual page count; a 6-page PDF is rejected with the message citing 6; a
  5-page PDF whose pages all yield their text is accepted when that text has at most
  10,000 words.
\<close>

theorem validate_pdf_page_limit:
  assumes "fitz_open file_content = Inr doc"
  shows "(validate_pdf (PyMuPDF fitz_open) file_content = (False, page_limit_msg (length doc), [])
            \<longleftrightarrow> 5 < length doc)
       \<and> (\<forall>k t. validate_pdf (PyMuPDF fitz_open) file_content = (False, page_limit_msg k, t)
            \<longrightarrow> k = length doc \<and> 5 < length doc)
       \<and> (length doc = 6 \<longrightarrow>
            validate_pdf (PyMuPDF fitz_open) file_content
              = (False, lit ''PDF has 6 pages. Maximum allowed is 5.'', []))
       \<and> (length doc = 5 \<and> doc = map Inr texts \<and> length (str_split (concat texts)) \<le> 10000 \<longrightarrow>
            validate_pdf (PyMuPDF fitz_open) file_content = (True, lit ''PDF is valid.'', concat texts))"
proof -
  let ?r = "validate_pdf (PyMuPDF fitz_open) file_content"
  have many: "?r = (False, page_limit_msg (length doc), [])" if "5 < length doc"
    using validate_pdf_traced_many [of fitz_open file_content doc] assms that
    by (simp add: validate_pdf_def)
  have few: "?r \<noteq> (False, page_limit_msg k, t)" if "length doc \<le> 5" for k t
    using validate_pdf_few_not_page_msg [of fitz_open file_content doc k t] assms that by simp
  have a: "?r = (False, page_limit_msg (length doc), []) \<longleftrightarrow> 5 < length doc"
    using many few [of "length doc" "[]"] by (cases "5 < length doc") simp_all
  have b: "k = length doc \<and> 5 < length doc" if eq: "?r = (False, page_limit_msg k, t)" for k t
  proof -
    have gt: "5 < length doc"
      using few [of k t] eq by (cases "5 < length doc") simp_all
    with many eq have "page_limit_msg k = page_limit_msg (length doc)" by simp
    with gt show ?thesis by (simp add: page_msg_inj)
  qed
  have c: "?r = (False, lit ''PDF has 6 pages. Maximum allowed is 5.'', [])" if "length doc = 6"
    using many that by (simp add: page_limit_msg_def str_nat.simps)
  have d: "?r = (True, lit ''PDF is valid.'', concat texts)"
    if "length doc = 5" "doc = map Inr texts" "length (str_split (concat texts)) \<le> 10000"
    using validate_pdf_traced_texts [of fitz_open file_content texts] assms that
    by (simp add: validate_pdf_def)
  from a b c d show ?thesis by blast
qed

text \<open>The theorem at a 6-page and at a 5-page document of three words.\<close>

theorem validate_pdf_page_limit_witness:
  "length (map Inr (sample_texts 6 3) :: page list) = 6
   \<and> validate_pdf (PyMuPDF (\<lambda>_. Inr (map Inr (sample_texts 6 3)))) []
       = (False, lit ''PDF has 6 pages. Maximum allowed is 5.'', [])
   \<and> length (map Inr (sample_texts 5 3) :: page list) = 5
   \<and> length (str_split (concat (sample_texts 5 3))) = 3
   \<and> validate_pdf (PyMuPDF (\<lambda>_. Inr (map Inr (sample_texts 5 3)))) []
       = (True, lit ''PDF is valid.'', lit ''a a a '')"
proof -
  have six: "length (map Inr (sample_texts 6 3) :: page list) = 6"
    by (simp add: length_sample_texts)
  have five: "length (map Inr (sample_texts 5 3) :: page list) = 5"
    by (simp add: length_sample_texts)
  have words: "length (str_split (concat (sample_texts 5 3))) = 3"
    by (simp add: concat_sample_texts length_str_split_sample_words)
  have body: "concat (sample_texts 5 3) = lit ''a a a ''"
    by (simp add: concat_sample_texts sample_words_def eval_nat_numeral)
  note t6 = validate_pdf_page_limit
    [of "\<lambda>_. Inr (map Inr (sample_texts 6 3))" "[]" "map Inr (sample_texts 6 3)" "sample_texts 6 3",
     OF refl]
  from t6 [THEN conjunct2, THEN conjunct2, THEN conjunct1] six
  have r6: "validate_pdf (PyMuPDF (\<lambda>_. Inr (map Inr (sample_texts 6 3)))) []
       = (False, lit ''PDF has 6 pages. Maximum allowed is 5.'', [])"
    by (rule mp)
  note t5 = validate_pdf_page_limit
    [of "\<lambda>_. Inr (map Inr (sample_texts 5 3))" "[]" "map Inr (sample_texts 5 3)" "sample_texts 5 3",
     OF refl]
  have "length (map Inr (sample_texts 5 3) :: page list) = 5
        \<and> (map Inr (sample_texts 5 3) :: page list) = map Inr (sample_texts 5 3)
        \<and> length (str_split (concat (sample_texts 5 3))) \<le> 10000"
    using five words by simp
  with t5 [THEN conjunct2, THEN conjunct2, THEN conjunct2]
  have "validate_pdf (PyMuPDF (\<lambda>_. Inr (map Inr (sample_texts 5 3)))) []
       = (True, lit ''PDF is valid.'', concat (sample_texts 5 3))"
    by (rule mp)
  then have r5: "validate_pdf (PyMuPDF (\<lambda>_. Inr (map Inr (sample_texts 5 3)))) []
       = (True, lit ''PDF is valid.'', lit ''a a a '')"
    by (simp only: body)
  from six r6 five words r5 show ?thesis by (intro conjI)
qed

text \<open>
  Claim C3 as stated says that a 5-page PDF is accepted. A 5-page PDF of 10,001 words is
  rejected: the page check lets it pass and the word check that follows refuses it.
\<close>

theorem five_pages_rejected_counterexample:
  "length (map Inr (sample_texts 5 10001) :: page list) = 5
   \<and> validate_pdf (PyMuPDF (\<lambda>_. Inr (map Inr (sample_texts 5 10001)))) []
       = (False, lit ''PDF has 10001 words. Maximum allowed is 10,000.'', [])"
proof -
  have five: "length (sample_texts 5 10001) = 5"
    by (simp add: length_sample_texts)
  have words: "length (str_split (concat (sample_texts 5 10001))) = 10001"
    by (simp add: concat_sample_texts length_str_split_sample_words)
  have msg: "word_limit_msg 10001 = lit ''PDF has 10001 words. Maximum allowed is 10,000.''"
    by (simp add: word_limit_msg_def str_nat.simps)
  have "validate_pdf_traced (PyMuPDF (\<lambda>_. Inr (map Inr (sample_texts 5 10001)))) []
        = ((False, word_limit_msg 10001, []), 5)"
    using validate_pdf_traced_texts [of "\<lambda>_. Inr (map Inr (sample_texts 5 10001))" "[]" "sample_texts 5 10001"]
      five words by simp
  with five msg show ?thesis by (simp add: validate_pdf_def)
qed

section \<open>Document validator: the word limit\<close>

text \<open>
  Claim C2, as amended. For every input that PyMuPDF opens as a document of at most 5
  pages whose pages all yield their text, the word count \<open>validate_pdf\<close> computes,
  \<open>len(full_text.split())\<close>, is the number of whitespace-delimited tokens of the
  concatenation of the pages' texts in page order; the function returns the failure
  \<open>(False, "PDF has N words. Maximum allowed is 10,000.", "")\<close> with \<open>N\<close> that count
  exactly when the count exceeds 10,000, and otherwise, in particular at exactly 10,000
  words, accepts the document and returns its text.
\<close>

theorem validate_pdf_word_limit:
  assumes "fitz_open file_content = Inr (map Inr texts)" and "length texts \<le> 5"
  shows "length (str_split (concat texts)) = ws_token_count (concat texts)
       \<and> (validate_pdf (PyMuPDF fitz_open) file_content
             = (False, word_limit_msg (ws_token_count (concat texts)), [])
            \<longleftrightarrow> 10000 < ws_token_count (concat texts))
       \<and> (\<forall>k t. validate_pdf (PyMuPDF fitz_open) file_content = (False, word_limit_msg k, t)
            \<longrightarrow> k = ws_token_count (concat texts) \<and> 10000 < k)
       \<and> (ws_token_count (concat texts) \<le> 10000 \<longrightarrow>
            validate_pdf (PyMuPDF fitz_open) file_content = (True, lit ''PDF is valid.'', concat texts))
       \<and> (ws_token_count (concat texts) = 10000 \<longrightarrow>
            validate_pdf (PyMuPDF fitz_open) file_content = (True, lit ''PDF is valid.'', concat texts))"
proof -
  let ?r = "validate_pdf (PyMuPDF fitz_open) file_content"
  let ?wc = "ws_token_count (concat texts)"
  have cnt: "length (str_split (concat texts)) = ?wc"
    by (rule length_str_split_tokens)
  have r: "?r = (if 10000 < ?wc then (False, word_limit_msg ?wc, [])
                 else (True, lit ''PDF is valid.'', concat texts))"
    using validate_pdf_traced_texts [of fitz_open file_content texts] assms
    by (simp add: validate_pdf_def cnt)
  have a: "?r = (False, word_limit_msg ?wc, []) \<longleftrightarrow> 10000 < ?wc"
    by (simp add: r)
  have b: "k = ?wc \<and> 10000 < k" if eq: "?r = (False, word_limit_msg k, t)" for k t
  proof -
    have gt: "10000 < ?wc"
      using eq r by (cases "10000 < ?wc") simp_all
    with eq r have "word_limit_msg k = word_limit_msg ?wc" by simp
    then have "k = ?wc" by (rule word_msg_inj)
    with gt show ?thesis by simp
  qed
  have c: "?r = (True, lit ''PDF is valid.'', concat texts)" if "?wc \<le> 10000"
    using that by (simp add: r)
  have d: "?r = (True, lit ''PDF is valid.'', concat texts)" if "?wc = 10000"
    using c that by simp
  from cnt a b c d show ?thesis by blast
qed

text \<open>The theorem at 3-page documents of exactly 10,000 and of 10,001 words.\<close>

theorem validate_pdf_word_limit_witness:
  "length (sample_texts 3 10000) \<le> 5
   \<and> ws_token_count (concat (sample_texts 3 10000)) = 10000
   \<and> validate_pdf (PyMuPDF (\<lambda>_. Inr (map Inr (sample_texts 3 10000)))) []
       = (True, lit ''PDF is valid.'', sample_words 10000)
   \<and> length (sample_texts 3 10001) \<le> 5
   \<and> ws_token_count (concat (sample_texts 3 10001)) = 10001
   \<and> validate_pdf (PyMuPDF (\<lambda>_. Inr (map Inr (sample_texts 3 10001)))) []
       = (False, lit ''PDF has 10001 words. Maximum allowed is 10,000.'', [])"
proof -
  have len0: "length (sample_texts 3 10000) \<le> 5"
    by (simp add: length_sample_texts)
  have len1: "length (sample_texts 3 10001) \<le> 5"
    by (simp add: length_sample_texts)
  have wc0: "ws_token_count (concat (sample_texts 3 10000)) = 10000"
    by (simp add: concat_sample_texts ws_token_count_sample_words)
  have wc1: "ws_token_count (concat (sample_texts 3 10001)) = 10001"
    by (simp add: concat_sample_texts ws_token_count_sample_words)
  have msg: "word_limit_msg 10001 = lit ''PDF has 10001 words. Maximum allowed is 10,000.''"
    by (simp add: word_limit_msg_def str_nat.simps)
  note t0 = validate_pdf_word_limit
    [of "\<lambda>_. Inr (map Inr (sample_texts 3 10000))" "[]" "sample_texts 3 10000", OF refl len0]
  from t0 [THEN conjunct2, THEN conjunct2, THEN conjunct2, THEN conjunct2] wc0
  have "validate_pdf (PyMuPDF (\<lambda>_. Inr (map Inr (sample_texts 3 10000)))) []
       = (True, lit ''PDF is valid.'', concat (sample_texts 3 10000))"
    by (rule mp)
  then have r0: "validate_pdf (PyMuPDF (\<lambda>_. Inr (map Inr (sample_texts 3 10000)))) []
       = (True, lit ''PDF is valid.'', sample_words 10000)"
    by (simp only: concat_sample_texts)
  note t1 = validate_pdf_word_limit
    [of "\<lambda>_. Inr (map Inr (sample_texts 3 10001))" "[]" "sample_texts 3 10001", OF refl len1]
  have "10000 < ws_token_count (concat (sample_texts 3 10001))"
    by (simp add: wc1)
  with t1 [THEN conjunct2, THEN conjunct1]
  have "validate_pdf (PyMuPDF (\<lambda>_. Inr (map Inr (sample_texts 3 10001)))) []
       = (False, word_limit_msg (ws_token_count (concat (sample_texts 3 10001))), [])"
    by (rule iffD2)
  then have r1: "validate_pdf (PyMuPDF (\<lambda>_. Inr (map Inr (sample_texts 3 10001)))) []
       = (False, lit ''PDF has 10001 words. Maximum allowed is 10,000.'', [])"
    by (simp only: wc1 msg)
  from len0 wc0 r0 len1 wc1 r1 show ?thesis by (intro conjI)
qed

text \<open>
  Claim C2 as stated covers every parseable PDF. A 6-page PDF of 10,001 words is rejected
  with the page-limit message, not with a message citing its word count: the page check
  returns before any text is read.
\<close>

theorem six_pages_many_words_counterexample:
  "length (sample_texts 6 10001) = 6
   \<and> length (str_split (concat (sample_texts 6 10001))) = 10001
   \<and> validate_pdf (PyMuPDF (\<lambda>_. Inr (map Inr (sample_texts 6 10001)))) []
       = (False, lit ''PDF has 6 pages. Maximum allowed is 5.'', [])"
proof -
  have six: "length (sample_texts 6 10001) = 6"
    by (simp add: length_sample_texts)
  have words: "length (str_split (concat (sample_texts 6 10001))) = 10001"
    by (simp add: concat_sample_texts length_str_split_sample_words)
  have msg: "page_limit_msg 6 = lit ''PDF has 6 pages. Maximum allowed is 5.''"
    by (simp add: page_limit_msg_def str_nat.simps)
  have "validate_pdf_traced (PyMuPDF (\<lambda>_. Inr (map Inr (sample_texts 6 10001)))) []
        = ((False, page_limit_msg 6, []), 0)"
    using validate_pdf_traced_many
      [of "\<lambda>_. Inr (map Inr (sample_texts 6 10001))" "[]" "map Inr (sample_texts 6 10001)"] six
    by simp
  then have "validate_pdf (PyMuPDF (\<lambda>_. Inr (map Inr (sample_texts 6 10001)))) []
        = (False, lit ''PDF has 6 pages. Maximum allowed is 5.'', [])"
    by (simp only: validate_pdf_def fst_conv msg)
  with six words show ?thesis by (intro conjI)
qed

section \<open>Document validator: failures are returned, not raised\<close>

lemma validate_pdf_traced_import_fail:
  "get_pymupdf m = Inl e \<Longrightarrow>
   validate_pdf_traced m fc = ((False, lit ''Error reading PDF: '' @ e, []), 0)"
  by (simp add: validate_pdf_traced_def validate_pdf_try_def)

lemma validate_pdf_try_failure_text:
  "fst (validate_pdf_try m fc) = Inr (ok, msg, t) \<Longrightarrow> \<not> ok \<Longrightarrow> t = []"
  by (auto simp: validate_pdf_try_def Let_def split: sum.splits prod.splits if_splits)

text \<open>
  Claim C6. \<open>validate_pdf\<close> is a total function into triples: for every installed
  package and every byte string it returns a triple. Whatever exception the body of its
  \<open>try\<close> block raises is returned as \<open>(False, "Error reading PDF: " + str(e), "")\<close>:
  that is the result when the PDF library cannot be imported, when opening the bytes
  fails, and when a page of a document of at most five pages fails to yield its text;
  and every failure triple carries the empty text.
\<close>

theorem validate_pdf_never_raises:
  "(\<forall>e. fst (validate_pdf_try m file_content) = Inl e \<longrightarrow>
        validate_pdf m file_content = (False, lit ''Error reading PDF: '' @ e, []))
   \<and> (\<forall>r. fst (validate_pdf_try m file_content) = Inr r \<longrightarrow> validate_pdf m file_content = r)
   \<and> (\<forall>e. get_pymupdf m = Inl e \<longrightarrow>
        validate_pdf m file_content = (False, lit ''Error reading PDF: '' @ e, []))
   \<and> (\<forall>fitz_open e. m = PyMuPDF fitz_open \<and> fitz_open file_content = Inl e \<longrightarrow>
        validate_pdf m file_content = (False, lit ''Error reading PDF: '' @ e, []))
   \<and> (\<forall>fitz_open texts e rest.
        m = PyMuPDF fitz_open \<and> fitz_open file_content = Inr (map Inr texts @ Inl e # rest) \<and>
        length texts + length rest < 5 \<longrightarrow>
        validate_pdf m file_content = (False, lit ''Error reading PDF: '' @ e, []))
   \<and> (\<not> fst (validate_pdf m file_content) \<longrightarrow> snd (snd (validate_pdf m file_content)) = [])"
proof -
  let ?r = "validate_pdf m file_content"
  have a: "?r = (False, lit ''Error reading PDF: '' @ e, [])"
    if "fst (validate_pdf_try m file_content) = Inl e" for e
    using that
    by (cases "validate_pdf_try m file_content") (simp add: validate_pdf_def validate_pdf_traced_def)
  have b: "?r = r" if "fst (validate_pdf_try m file_content) = Inr r" for r
    using that
    by (cases "validate_pdf_try m file_content") (simp add: validate_pdf_def validate_pdf_traced_def)
  have c: "?r = (False, lit ''Error reading PDF: '' @ e, [])" if "get_pymupdf m = Inl e" for e
    using validate_pdf_traced_import_fail [OF that] by (simp add: validate_pdf_def)
  have d: "?r = (False, lit ''Error reading PDF: '' @ e, [])"
    if "m = PyMuPDF fitz_open \<and> fitz_open file_content = Inl e" for fitz_open e
    using validate_pdf_traced_open_fail [of fitz_open file_content e] that
    by (simp add: validate_pdf_def)
  have e: "?r = (False, lit ''Error reading PDF: '' @ e, [])"
    if "m = PyMuPDF fitz_open \<and> fitz_open file_content = Inr (map Inr texts @ Inl e # rest) \<and>
        length texts + length rest < 5" for fitz_open texts e rest
    using validate_pdf_traced_page_fail [of fitz_open file_content texts e rest] that
    by (simp add: validate_pdf_def)
  have f: "snd (snd ?r) = []" if nok: "\<not> fst ?r"
  proof (cases "fst (validate_pdf_try m file_content)")
    case (Inl e)
    with a show ?thesis by simp
  next
    case (Inr r)
    obtain ok msg t where r: "r = (ok, msg, t)" by (cases r)
    from b Inr have eq: "?r = r" by simp
    with nok r have "\<not> ok" by simp
    with validate_pdf_try_failure_text [of m file_content ok msg t] Inr r have "t = []" by simp
    with eq r show ?thesis by simp
  qed
  from a b c d e f show ?thesis by blast
qed

text \<open>
  The theorem at a missing library, at bytes that are no PDF, and at a document whose
  second page cannot be read.
\<close>

theorem validate_pdf_never_raises_witness:
  "get_pymupdf NotInstalled
     = Inl (lit ''PyMuPDF not installed. Install it with:  pip install PyMuPDF'')
   \<and> validate_pdf NotInstalled [0x6E, 0x6F]
       = (False, lit ''Error reading PDF: PyMuPDF not installed. Install it with:  pip install PyMuPDF'', [])
   \<and> validate_pdf (PyMuPDF (\<lambda>_. Inl (lit ''no objects found''))) [0x6E, 0x6F]
       = (False, lit ''Error reading PDF: no objects found'', [])
   \<and> validate_pdf (PyMuPDF (\<lambda>_. Inr [Inr (lit ''a b''), Inl (lit ''bad page''), Inr []])) []
       = (False, lit ''Error reading PDF: bad page'', [])"
proof -
  have g: "get_pymupdf NotInstalled
     = Inl (lit ''PyMuPDF not installed. Install it with:  pip install PyMuPDF'')"
    by (simp add: get_pymupdf_def)
  note t0 = validate_pdf_never_raises [of NotInstalled "[0x6E, 0x6F]"]
  from t0 [THEN conjunct2, THEN conjunct2, THEN conjunct1, THEN spec, THEN mp, OF g]
  have r0: "validate_pdf NotInstalled [0x6E, 0x6F]
       = (False, lit ''Error reading PDF: PyMuPDF not installed. Install it with:  pip install PyMuPDF'', [])"
    by simp
  note t1 = validate_pdf_never_raises [of "PyMuPDF (\<lambda>_. Inl (lit ''no objects found''))" "[0x6E, 0x6F]"]
  have "PyMuPDF (\<lambda>_. Inl (lit ''no objects found'')) = PyMuPDF (\<lambda>_. Inl (lit ''no objects found''))
        \<and> (\<lambda>_. Inl (lit ''no objects found'') :: pystr + page list) [0x6E, 0x6F :: 8 word]
            = Inl (lit ''no objects found'')"
    by simp
  with t1 [THEN conjunct2, THEN conjunct2, THEN conjunct2, THEN conjunct1, THEN spec, THEN spec]
  have "validate_pdf (PyMuPDF (\<lambda>_. Inl (lit ''no objects found''))) [0x6E, 0x6F]
       = (False, lit ''Error reading PDF: '' @ lit ''no objects found'', [])"
    by (rule mp)
  then have r1: "validate_pdf (PyMuPDF (\<lambda>_. Inl (lit ''no objects found''))) [0x6E, 0x6F]
       = (False, lit ''Error reading PDF: no objects found'', [])"
    by simp
  note t2 = validate_pdf_never_raises
    [of "PyMuPDF (\<lambda>_. Inr [Inr (lit ''a b''), Inl (lit ''bad page''), Inr []])" "[]"]
  have "PyMuPDF (\<lambda>_. Inr [Inr (lit ''a b''), Inl (lit ''bad page''), Inr []])
          = PyMuPDF (\<lambda>_. Inr [Inr (lit ''a b''), Inl (lit ''bad page''), Inr []])
        \<and> (\<lambda>_. Inr [Inr (lit ''a b''), Inl (lit ''bad page''), Inr []] :: pystr + page list) ([] :: bytes)
            = Inr (map Inr [lit ''a b''] @ Inl (lit ''bad page'') # [Inr []])
        \<and> length [lit ''a b''] + length [Inr [] :: page] < 5"
    by simp
  with t2 [THEN conjunct2, THEN conjunct2, THEN conjunct2, THEN conjunct2, THEN conjunct1,
           THEN spec, THEN spec, THEN spec, THEN spec]
  have "validate_pdf (PyMuPDF (\<lambda>_. Inr [Inr (lit ''a b''), Inl (lit ''bad page''), Inr []])) []
       = (False, lit ''Error reading PDF: '' @ lit ''bad page'', [])"
    by (rule mp)
  then have r2: "validate_pdf (PyMuPDF (\<lambda>_. Inr [Inr (lit ''a b''), Inl (lit ''bad page''), Inr []])) []
       = (False, lit ''Error reading PDF: bad page'', [])"
    by simp
  from g r0 r1 r2 show ?thesis by (intro conjI)
qed

section \<open>Document validator: the page check comes first\<close>

text \<open>
  Claim C10. For every document of more than 5 pages, whatever its pages hold (so also
  when it has more than 10,000 words), \<open>validate_pdf\<close> returns the page-limit failure
  and has called \<open>get_text\<close> on no page, so no word count was computed; and a
  word-limit failure is returned only for a document of at most 5 pages.
\<close>

theorem validate_pdf_page_check_first:
  "(\<forall>fitz_open doc. m = PyMuPDF fitz_open \<and> fitz_open file_content = Inr doc \<and> 5 < length doc \<longrightarrow>
        validate_pdf m file_content = (False, page_limit_msg (length doc), [])
        \<and> get_text_calls m file_content = 0)
   \<and> (\<forall>fitz_open doc k t. m = PyMuPDF fitz_open \<and> fitz_open file_content = Inr doc \<and>
        validate_pdf m file_content = (False, word_limit_msg k, t) \<longrightarrow> length doc \<le> 5)"
proof -
  have a: "validate_pdf m file_content = (False, page_limit_msg (length doc), [])
           \<and> get_text_calls m file_content = 0"
    if "m = PyMuPDF fitz_open \<and> fitz_open file_content = Inr doc \<and> 5 < length doc" for fitz_open doc
    using validate_pdf_traced_many [of fitz_open file_content doc] that
    by (simp add: validate_pdf_def get_text_calls_def)
  have b: "length doc \<le> 5"
    if h: "m = PyMuPDF fitz_open \<and> fitz_open file_content = Inr doc \<and>
        validate_pdf m file_content = (False, word_limit_msg k, t)" for fitz_open doc k t
  proof (rule ccontr)
    assume "\<not> length doc \<le> 5"
    then have "5 < length doc" by simp
    with a [of fitz_open doc] h
    have "validate_pdf m file_content = (False, page_limit_msg (length doc), [])" by simp
    with h have "page_limit_msg (length doc) = word_limit_msg k" by simp
    with page_msg_neq_word_msg show False by blast
  qed
  from a b show ?thesis by blast
qed

text \<open>
  The theorem at a 6-page document of 10,001 words, which exceeds both limits, and at a
  4-page document of 10,001 words, which is rejected on its word count.
\<close>

theorem validate_pdf_page_check_first_witness:
  "5 < length (map Inr (sample_texts 6 10001) :: page list)
   \<and> 10000 < length (str_split (concat (sample_texts 6 10001)))
   \<and> validate_pdf (PyMuPDF (\<lambda>_. Inr (map Inr (sample_texts 6 10001)))) []
       = (False, lit ''PDF has 6 pages. Maximum allowed is 5.'', [])
   \<and> get_text_calls (PyMuPDF (\<lambda>_. Inr (map Inr (sample_texts 6 10001)))) [] = 0
   \<and> validate_pdf (PyMuPDF (\<lambda>_. Inr (map Inr (sample_texts 4 10001)))) []
       = (False, word_limit_msg 10001, [])
   \<and> length (map Inr (sample_texts 4 10001) :: page list) \<le> 5"
proof -
  let ?m6 = "PyMuPDF (\<lambda>_. Inr (map Inr (sample_texts 6 10001)))"
  let ?m4 = "PyMuPDF (\<lambda>_. Inr (map Inr (sample_texts 4 10001)))"
  have six: "length (map Inr (sample_texts 6 10001) :: page list) = 6"
    by (simp add: length_sample_texts)
  then have pages: "5 < length (map Inr (sample_texts 6 10001) :: page list)"
    by simp
  have words: "10000 < length (str_split (concat (sample_texts 6 10001)))"
    by (simp add: concat_sample_texts length_str_split_sample_words)
  have msg: "page_limit_msg 6 = lit ''PDF has 6 pages. Maximum allowed is 5.''"
    by (simp add: page_limit_msg_def str_nat.simps)
  note t6 = validate_pdf_page_check_first [of ?m6 "[]"]
  have "?m6 = ?m6
        \<and> (\<lambda>_. Inr (map Inr (sample_texts 6 10001)) :: pystr + page list) ([] :: bytes)
            = Inr (map Inr (sample_texts 6 10001))
        \<and> 5 < length (map Inr (sample_texts 6 10001) :: page list)"
    using pages by simp
  with t6 [THEN conjunct1, THEN spec, THEN spec]
  have both: "validate_pdf ?m6 [] = (False, page_limit_msg (length (map Inr (sample_texts 6 10001) :: page list)), [])
        \<and> get_text_calls ?m6 [] = 0"
    by (rule mp)
  then have r6: "validate_pdf ?m6 [] = (False, lit ''PDF has 6 pages. Maximum allowed is 5.'', [])"
    by (simp only: six msg)
  from both have calls: "get_text_calls ?m6 [] = 0"
    by (rule conjunct2)
  have four: "length (sample_texts 4 10001) \<le> 5"
    by (simp add: length_sample_texts)
  have wc: "length (str_split (concat (sample_texts 4 10001))) = 10001"
    by (simp add: concat_sample_texts length_str_split_sample_words)
  have "validate_pdf_traced ?m4 [] = ((False, word_limit_msg 10001, []), length (sample_texts 4 10001))"
    using validate_pdf_traced_texts
      [of "\<lambda>_. Inr (map Inr (sample_texts 4 10001))" "[]" "sample_texts 4 10001"] four wc
    by simp
  then have r4: "validate_pdf ?m4 [] = (False, word_limit_msg 10001, [])"
    by (simp only: validate_pdf_def fst_conv)
  note t4 = validate_pdf_page_check_first [of ?m4 "[]"]
  have "?m4 = ?m4
        \<and> (\<lambda>_. Inr (map Inr (sample_texts 4 10001)) :: pystr + page list) ([] :: bytes)
            = Inr (map Inr (sample_texts 4 10001))
        \<and> validate_pdf ?m4 [] = (False, word_limit_msg 10001, [])"
    using r4 by simp
  with t4 [THEN conjunct2, THEN spec, THEN spec, THEN spec, THEN spec]
  have le: "length (map Inr (sample_texts 4 10001) :: page list) \<le> 5"
    by (rule mp)
  from pages words r6 calls r4 le show ?thesis by (intro conjI)
qed

section \<open>Vector store gateway: the existence check\<close>

text \<open>
  Claim C5. For every index and fingerprint, \<open>is_document_already_indexed\<close> returns
  \<open>True\<close> if and only if the query with the all-zero vector of 1536 components,
  \<open>top_k = 1\<close> and the metadata filter \<open>doc_hash == fingerprint\<close> returns at least one
  match; and whenever that query raises, it returns \<open>False\<close> instead of raising.
\<close>

theorem is_document_already_indexed_iff:
  "(is_document_already_indexed index pdf_hash \<longleftrightarrow>
      (\<exists>matches. index (replicate 1536 0) 1 (DocHashEq pdf_hash) = Inr matches \<and> 0 < length matches))
   \<and> (\<forall>e. index (replicate 1536 0) 1 (DocHashEq pdf_hash) = Inl e \<longrightarrow>
        \<not> is_document_already_indexed index pdf_hash)"
  by (cases "index (replicate 1536 0) 1 (DocHashEq pdf_hash)")
     (auto simp: is_document_already_indexed_def)

text \<open>
  The theorem at an index whose queries raise, and at an index that holds one fingerprint,
  asked for that fingerprint and for another one.
\<close>

theorem is_document_already_indexed_iff_witness:
  "\<not> is_document_already_indexed
       (\<lambda>v k f. Inl (lit ''connection reset'') :: pystr + nat list) (lit ''ab12'')
   \<and> is_document_already_indexed
       (\<lambda>v k f. if f = DocHashEq (lit ''ab12'') \<and> v = replicate 1536 0 then Inr [7 :: nat] else Inr [])
       (lit ''ab12'')
   \<and> \<not> is_document_already_indexed
       (\<lambda>v k f. if f = DocHashEq (lit ''ab12'') \<and> v = replicate 1536 0 then Inr [7 :: nat] else Inr [])
       (lit ''cd34'')"
proof -
  let ?down = "\<lambda>v k f. Inl (lit ''connection reset'') :: pystr + nat list"
  let ?ix = "\<lambda>(v :: real list) (k :: nat) f.
      if f = DocHashEq (lit ''ab12'') \<and> v = replicate 1536 0 then Inr [7 :: nat] else (Inr [] :: pystr + nat list)"
  note t0 = is_document_already_indexed_iff [of ?down "lit ''ab12''"]
  have "?down (replicate 1536 0) 1 (DocHashEq (lit ''ab12'')) = Inl (lit ''connection reset'')"
    by simp
  with t0 [THEN conjunct2, THEN spec]
  have r0: "\<not> is_document_already_indexed ?down (lit ''ab12'')"
    by (rule mp)
  note t1 = is_document_already_indexed_iff [of ?ix "lit ''ab12''"]
  have "?ix (replicate 1536 0) 1 (DocHashEq (lit ''ab12'')) = Inr [7] \<and> 0 < length [7 :: nat]"
    by simp
  then have "\<exists>matches. ?ix (replicate 1536 0) 1 (DocHashEq (lit ''ab12'')) = Inr matches \<and> 0 < length matches"
    by (rule exI)
  with t1 [THEN conjunct1]
  have r1: "is_document_already_indexed ?ix (lit ''ab12'')"
    by (rule iffD2)
  note t2 = is_document_already_indexed_iff [of ?ix "lit ''cd34''"]
  have "\<not> (\<exists>matches. ?ix (replicate 1536 0) 1 (DocHashEq (lit ''cd34'')) = Inr matches \<and> 0 < length matches)"
    by simp
  with t2 [THEN conjunct1]
  have r2: "\<not> is_document_already_indexed ?ix (lit ''cd34'')"
    by simp
  from r0 r1 r2 show ?thesis by (intro conjI)
qed

section \<open>Answer synthesizer: failures become an answer\<close>

text \<open>
  Claim C8. For every query, when retrieval raises, \<open>query_llm_with_rag\<close> returns the
  string \<open>"Error querying LLM: " + str(e)\<close> and the model is not invoked; when the
  invocation of the language model raises, it returns the string of the same form. The
  function is total into strings, so the caller receives a string in every case.
\<close>

theorem query_llm_with_rag_returns_error_text:
  "(\<forall>e. vector_store query top_k = Inl e \<longrightarrow>
        query_llm_with_rag query vector_store llm top_k = lit ''Error querying LLM: '' @ e
        \<and> llm_prompts query vector_store llm top_k = [])
   \<and> (\<forall>docs e. vector_store query top_k = Inr docs \<and>
        llm (create_rag_prompt_template
               (if docs \<noteq> [] then str_join [0xA, 0xA] docs else lit ''No relevant context found.'')
               query) = Inl e \<longrightarrow>
        query_llm_with_rag query vector_store llm top_k = lit ''Error querying LLM: '' @ e)"
  by (simp add: query_llm_with_rag_def llm_prompts_def query_llm_with_rag_traced_def Let_def)

text \<open>The theorem at a failing retrieval and at a failing model.\<close>

theorem query_llm_with_rag_returns_error_text_witness:
  "query_llm_with_rag (lit ''What is it?'') (\<lambda>q k. Inl (lit ''index unreachable''))
       (\<lambda>p. Inr (lit ''unused'')) 5
     = lit ''Error querying LLM: index unreachable''
   \<and> query_llm_with_rag (lit ''What is it?'') (\<lambda>q k. Inr [lit ''a chunk''])
       (\<lambda>p. Inl (lit ''rate limit'')) 5
     = lit ''Error querying LLM: rate limit''"
proof -
  let ?q = "lit ''What is it?''"
  let ?vs0 = "\<lambda>(q :: pystr) (k :: nat). Inl (lit ''index unreachable'') :: pystr + pystr list"
  let ?llm0 = "\<lambda>p :: pystr. Inr (lit ''unused'') :: pystr + pystr"
  let ?vs1 = "\<lambda>(q :: pystr) (k :: nat). Inr [lit ''a chunk''] :: pystr + pystr list"
  let ?llm1 = "\<lambda>p :: pystr. Inl (lit ''rate limit'') :: pystr + pystr"
  note t0 = query_llm_with_rag_returns_error_text [of ?vs0 ?q 5 ?llm0]
  have "?vs0 ?q 5 = Inl (lit ''index unreachable'')"
    by simp
  with t0 [THEN conjunct1, THEN spec]
  have "query_llm_with_rag ?q ?vs0 ?llm0 5 = lit ''Error querying LLM: '' @ lit ''index unreachable''
        \<and> llm_prompts ?q ?vs0 ?llm0 5 = []"
    by (rule mp)
  then have r0: "query_llm_with_rag ?q ?vs0 ?llm0 5 = lit ''Error querying LLM: index unreachable''"
    by simp
  note t1 = query_llm_with_rag_returns_error_text [of ?vs1 ?q 5 ?llm1]
  have "?vs1 ?q 5 = Inr [lit ''a chunk''] \<and>
        ?llm1 (create_rag_prompt_template
               (if [lit ''a chunk''] \<noteq> [] then str_join [0xA, 0xA] [lit ''a chunk'']
                else lit ''No relevant context found.'') ?q) = Inl (lit ''rate limit'')"
    by simp
  with t1 [THEN conjunct2, THEN spec, THEN spec]
  have "query_llm_with_rag ?q ?vs1 ?llm1 5 = lit ''Error querying LLM: '' @ lit ''rate limit''"
    by (rule mp)
  then have r1: "query_llm_with_rag ?q ?vs1 ?llm1 5 = lit ''Error querying LLM: rate limit''"
    by simp
  from r0 r1 show ?thesis by (intro conjI)
qed

section \<open>Answer synthesizer: empty retrieval and the trimmed response\<close>

lemma str_strip_decomposition:
  "s = takeWhile isspace s @ str_strip s @ rev (takeWhile isspace (rev (dropWhile isspace s)))"
proof -
  let ?d = "dropWhile isspace s"
  have "rev (dropWhile isspace (rev ?d)) @ rev (takeWhile isspace (rev ?d))
        = rev (takeWhile isspace (rev ?d) @ dropWhile isspace (rev ?d))"
    by (simp only: rev_append)
  also have "\<dots> = rev (rev ?d)"
    by (simp only: takeWhile_dropWhile_id)
  also have "\<dots> = ?d"
    by simp
  finally have "?d = str_strip s @ rev (takeWhile isspace (rev ?d))"
    by (simp add: str_strip_def)
  moreover have "s = takeWhile isspace s @ ?d"
    by simp
  ultimately show ?thesis by simp
qed

lemma str_strip_ends:
  assumes "str_strip s \<noteq> []"
  shows "\<not> isspace (hd (str_strip s)) \<and> \<not> isspace (last (str_strip s))"
proof -
  let ?d = "dropWhile isspace s"
  let ?e = "dropWhile isspace (rev ?d)"
  from assms have e: "?e \<noteq> []"
    by (simp add: str_strip_def)
  then have "\<not> isspace (hd ?e)"
    by (rule hd_dropWhile)
  moreover have "last (str_strip s) = hd ?e"
    using e by (simp add: str_strip_def last_rev)
  ultimately have l: "\<not> isspace (last (str_strip s))"
    by simp
  have d: "?d = str_strip s @ rev (takeWhile isspace (rev ?d))"
    using str_strip_decomposition [of s] takeWhile_dropWhile_id [of isspace s]
    by (metis same_append_eq)
  with assms have "hd ?d = hd (str_strip s)"
    by (metis hd_append2)
  moreover from d assms have "?d \<noteq> []"
    by (metis append_is_Nil_conv)
  then have "\<not> isspace (hd ?d)"
    by (rule hd_dropWhile)
  ultimately show ?thesis using l by simp
qed

lemma str_strip_trimmed:
  "\<exists>pre post. response = pre @ str_strip response @ post
      \<and> list_all isspace pre \<and> list_all isspace post"
proof -
  let ?pre = "takeWhile isspace response"
  let ?post = "rev (takeWhile isspace (rev (dropWhile isspace response)))"
  have "list_all isspace ?pre"
    by (simp add: list_all_iff) (metis set_takeWhileD)
  moreover have "list_all isspace ?post"
    by (simp add: list_all_iff) (metis set_takeWhileD)
  moreover have "response = ?pre @ str_strip response @ ?post"
    by (rule str_strip_decomposition)
  ultimately show ?thesis by blast
qed

text \<open>
  Claim C9. For every query whose retrieval returns no document, the language model is
  invoked, once, with the template in which \<open>"No relevant context found."\<close> stands for
  the context; and whenever the invocation succeeds, the answer is the response with its
  surrounding whitespace removed: the response is the answer between two runs of
  whitespace, and the answer neither starts nor ends with whitespace.
\<close>

theorem query_llm_with_rag_empty_retrieval:
  "(vector_store query top_k = Inr [] \<longrightarrow>
      llm_prompts query vector_store llm top_k
        = [rag_template_head @ lit ''No relevant context found.'' @ rag_template_mid @ query @
           rag_template_tail])
   \<and> (\<forall>docs response. vector_store query top_k = Inr docs \<and>
        llm (create_rag_prompt_template
               (if docs \<noteq> [] then str_join [0xA, 0xA] docs else lit ''No relevant context found.'')
               query) = Inr response \<longrightarrow>
        query_llm_with_rag query vector_store llm top_k = str_strip response
        \<and> (\<exists>pre post. response = pre @ str_strip response @ post
               \<and> list_all isspace pre \<and> list_all isspace post)
        \<and> (str_strip response \<noteq> [] \<longrightarrow>
               \<not> isspace (hd (str_strip response)) \<and> \<not> isspace (last (str_strip response))))"
proof -
  have a: "llm_prompts query vector_store llm top_k
        = [rag_template_head @ lit ''No relevant context found.'' @ rag_template_mid @ query @
           rag_template_tail]"
    if "vector_store query top_k = Inr []"
    using that
    by (simp add: llm_prompts_def query_llm_with_rag_traced_def Let_def
          create_rag_prompt_template_def split: sum.splits)
  have b: "query_llm_with_rag query vector_store llm top_k = str_strip response"
    if "vector_store query top_k = Inr docs \<and>
        llm (create_rag_prompt_template
               (if docs \<noteq> [] then str_join [0xA, 0xA] docs else lit ''No relevant context found.'')
               query) = Inr response" for docs response
    using that by (simp add: query_llm_with_rag_def query_llm_with_rag_traced_def Let_def)
  from a b str_strip_trimmed str_strip_ends show ?thesis by blast
qed

text \<open>The theorem at an empty retrieval and a response with whitespace around it.\<close>

theorem query_llm_with_rag_empty_retrieval_witness:
  "llm_prompts (lit ''Why?'') (\<lambda>q k. Inr []) (\<lambda>p. Inr (lit ''  Because. '' @ [0xA])) 5
     = [rag_template_head @ lit ''No relevant context found.'' @ rag_template_mid @ lit ''Why?'' @
        rag_template_tail]
   \<and> query_llm_with_rag (lit ''Why?'') (\<lambda>q k. Inr []) (\<lambda>p. Inr (lit ''  Because. '' @ [0xA])) 5
     = lit ''Because.''"
proof -
  let ?q = "lit ''Why?''"
  let ?vs = "\<lambda>(q :: pystr) (k :: nat). Inr [] :: pystr + pystr list"
  let ?llm = "\<lambda>p :: pystr. Inr (lit ''  Because. '' @ [0xA]) :: pystr + pystr"
  note t = query_llm_with_rag_empty_retrieval [of ?vs ?q 5 ?llm]
  have e: "?vs ?q 5 = Inr []"
    by simp
  with t [THEN conjunct1]
  have r0: "llm_prompts ?q ?vs ?llm 5
     = [rag_template_head @ lit ''No relevant context found.'' @ rag_template_mid @ ?q @
        rag_template_tail]"
    by (rule mp)
  have "?vs ?q 5 = Inr [] \<and>
        ?llm (create_rag_prompt_template
               (if ([] :: pystr list) \<noteq> [] then str_join [0xA, 0xA] [] else lit ''No relevant context found.'')
               ?q) = Inr (lit ''  Because. '' @ [0xA])"
    by simp
  with t [THEN conjunct2, THEN spec, THEN spec]
  have "query_llm_with_rag ?q ?vs ?llm 5 = str_strip (lit ''  Because. '' @ [0xA])
        \<and> (\<exists>pre post. lit ''  Because. '' @ [0xA]
               = pre @ str_strip (lit ''  Because. '' @ [0xA]) @ post
               \<and> list_all isspace pre \<and> list_all isspace post)
        \<and> (str_strip (lit ''  Because. '' @ [0xA]) \<noteq> [] \<longrightarrow>
               \<not> isspace (hd (str_strip (lit ''  Because. '' @ [0xA])))
               \<and> \<not> isspace (last (str_strip (lit ''  Because. '' @ [0xA]))))"
    by (rule mp)
  then have "query_llm_with_rag ?q ?vs ?llm 5 = str_strip (lit ''  Because. '' @ [0xA])"
    by (rule conjunct1)
  moreover have "str_strip (lit ''  Because. '' @ [0xA]) = lit ''Because.''"
    by (simp add: str_strip_def isspace_def)
  ultimately have r1: "query_llm_with_rag ?q ?vs ?llm 5 = lit ''Because.''"
    by (rule trans)
  from r0 r1 show ?thesis by (intro conjI)
qed

section \<open>Chunker: the splitter configuration\<close>

text \<open>
  The arguments \<open>chunk_size\<close> and \<open>chunk_overlap\<close> do not reach the splitter: whatever
  they are, the result is the one for 1000 and 200.
\<close>

lemma process_pdf_and_split_ignores_sizes:
  "process_pdf_and_split m split_text file_content chunk_size chunk_overlap
     = process_pdf_and_split m split_text file_content 1000 200"
  by (simp add: process_pdf_and_split_def process_pdf_and_split_try_def)

text \<open>
  Claim C1 says that the chunks are produced with the caller-supplied chunk size and
  overlap. Called with \<open>chunk_size = 500\<close> and \<open>chunk_overlap = 50\<close>, and with a splitter
  that reports the configuration it is given, \<open>process_pdf_and_split\<close> configures the
  splitter with 1000 and 200.
\<close>

theorem process_pdf_and_split_fixed_configuration:
  "process_pdf_and_split (PyMuPDF (\<lambda>_. Inr [Inr (lit ''a b c'')]))
       (\<lambda>cfg t. Inr [str_nat (nat (splitter_chunk_size cfg)),
                      str_nat (nat (splitter_chunk_overlap cfg))])
       [] 500 50
     = Inr [lit ''1000'', lit ''200'']"
  by (simp add: process_pdf_and_split_def process_pdf_and_split_try_def str_nat.simps)

section \<open>Vector store gateway: ingestion of an indexed fingerprint\<close>

lemma index_query_present:
  assumes "outage ix = None" and "r \<in> set (stored ix)" and "rec_doc_hash r = h"
  shows "\<exists>matches. index_query ix v 1 (DocHashEq h) = Inr matches \<and> matches \<noteq> []"
proof -
  from assms have "filter (\<lambda>r. rec_doc_hash r = h) (stored ix) \<noteq> []"
    by (auto simp: filter_empty_conv)
  then have "take 1 (filter (\<lambda>r. rec_doc_hash r = h) (stored ix)) \<noteq> []"
    by simp
  with assms(1) show ?thesis
    by (simp add: index_query_def)
qed

lemma already_indexed_present:
  assumes "outage ix = None" and "r \<in> set (stored ix)" and "rec_doc_hash r = h"
  shows "is_document_already_indexed (index_query ix) h"
  using index_query_present [OF assms, of "replicate 1536 0"]
  by (auto simp: is_document_already_indexed_def)

lemma from_texts_outage:
  "outage (snd (from_texts emb name items svc) n) = outage (svc n)"
proof (induction items arbitrary: svc)
  case Nil
  then show ?case by simp
next
  case (Cons item items)
  obtain t h i where item: "item = (t, h, i)" by (cases item)
  show ?case
  proof (cases "emb t")
    case (Inl e)
    with item show ?thesis by simp
  next
    case (Inr v)
    with item Cons.IH show ?thesis by simp
  qed
qed

lemma from_texts_hashes:
  "from_texts emb name items svc = (Inr (), svc') \<Longrightarrow>
   map rec_doc_hash (stored (svc' name))
     = map rec_doc_hash (stored (svc name)) @ map (\<lambda>(t, h, i). h) items"
proof (induction items arbitrary: svc)
  case Nil
  then show ?case by simp
next
  case (Cons item items)
  obtain t h i where item: "item = (t, h, i)" by (cases item)
  show ?case
  proof (cases "emb t")
    case (Inl e)
    with item Cons.prems show ?thesis by simp
  next
    case (Inr v)
    let ?svc = "svc(name := (svc name)\<lparr>
        stored := stored (svc name) @ [\<lparr>rec_vector = v, rec_text = t, rec_doc_hash = h, rec_chunk_id = i\<rparr>],
        upsert_calls := Suc (upsert_calls (svc name))\<rparr>)"
    from Cons.prems item Inr have "from_texts emb name items ?svc = (Inr (), svc')"
      by simp
    from Cons.IH [OF this] item show ?thesis by simp
  qed
qed

lemma from_texts_calls:
  "from_texts emb name items svc = (Inr (), svc') \<Longrightarrow>
   upsert_calls (svc' name) = upsert_calls (svc name) + length items"
proof (induction items arbitrary: svc)
  case Nil
  then show ?case by simp
next
  case (Cons item items)
  obtain t h i where item: "item = (t, h, i)" by (cases item)
  show ?case
  proof (cases "emb t")
    case (Inl e)
    with item Cons.prems show ?thesis by simp
  next
    case (Inr v)
    let ?svc = "svc(name := (svc name)\<lparr>
        stored := stored (svc name) @ [\<lparr>rec_vector = v, rec_text = t, rec_doc_hash = h, rec_chunk_id = i\<rparr>],
        upsert_calls := Suc (upsert_calls (svc name))\<rparr>)"
    from Cons.prems item Inr have "from_texts emb name items ?svc = (Inr (), svc')"
      by simp
    from Cons.IH [OF this] show ?thesis by simp
  qed
qed

lemma zip_hashes:
  "length xs = length ys \<Longrightarrow>
   map (\<lambda>(t, h, i). h) (zip xs (map (\<lambda>i. (h, i)) ys)) = replicate (length xs) h"
  by (induction xs ys rule: list_induct2) simp_all

lemma store_chunks_makes_present:
  assumes "store_chunks_in_pinecone secret chunks emb index_name h svc = (Inr (), svc')"
    and "chunks \<noteq> []"
  shows "\<exists>r \<in> set (stored (svc' (lit ''rag-index''))). rec_doc_hash r = h"
proof -
  let ?items = "zip chunks (map (\<lambda>i. (h, i)) [0..<length chunks])"
  from assms(1) have ft: "from_texts emb (lit ''rag-index'') ?items svc = (Inr (), svc')"
    by (cases secret) (simp_all add: store_chunks_in_pinecone_def Let_def)
  have "map (\<lambda>(t, h, i). h) ?items = replicate (length chunks) h"
    by (rule zip_hashes) simp
  with from_texts_hashes [OF ft]
  have "map rec_doc_hash (stored (svc' (lit ''rag-index'')))
        = map rec_doc_hash (stored (svc (lit ''rag-index''))) @ replicate (length chunks) h"
    by simp
  moreover from assms(2) have "h \<in> set (replicate (length chunks) h)"
    by simp
  ultimately have "h \<in> set (map rec_doc_hash (stored (svc' (lit ''rag-index''))))"
    by simp
  then show ?thesis by auto
qed

lemma store_chunks_outage:
  "outage (snd (store_chunks_in_pinecone secret chunks emb index_name h svc) n) = outage (svc n)"
  by (cases secret) (simp_all add: store_chunks_in_pinecone_def Let_def from_texts_outage)

text \<open>
  Claim C4. In the ingestion path, when the existence query for the fingerprint returns a
  match, ingestion is skipped and the service is left as it was, so no upsert call occurs
  in any index; this is so whenever the queried index is reachable and holds a record of
  that fingerprint. Hence a fingerprint's chunks are written at most once: after an
  ingestion into \<open>"rag-index"\<close> that stored at least one chunk, a further ingestion of
  the same fingerprint is skipped.
\<close>

theorem ingest_document_skips_indexed:
  "(\<forall>matches. index_query (svc index_name) (replicate 1536 0) 1 (DocHashEq pdf_hash) = Inr matches \<and>
        matches \<noteq> [] \<longrightarrow>
        ingest_document secret embedding_function index_name chunks pdf_hash svc = (None, svc))
   \<and> (\<forall>r. outage (svc index_name) = None \<and> r \<in> set (stored (svc index_name)) \<and>
        rec_doc_hash r = pdf_hash \<longrightarrow>
        ingest_document secret embedding_function index_name chunks pdf_hash svc = (None, svc))
   \<and> (\<forall>svc' chunks'. index_name = lit ''rag-index'' \<and> chunks \<noteq> [] \<and>
        outage (svc index_name) = None \<and>
        ingest_document secret embedding_function index_name chunks pdf_hash svc = (Some (Inr ()), svc') \<longrightarrow>
        ingest_document secret embedding_function index_name chunks' pdf_hash svc' = (None, svc'))"
proof -
  have a: "ingest_document secret embedding_function index_name chunks pdf_hash svc = (None, svc)"
    if "index_query (svc index_name) (replicate 1536 0) 1 (DocHashEq pdf_hash) = Inr matches \<and>
        matches \<noteq> []" for matches
    using that by (simp add: ingest_document_def is_document_already_indexed_def)
  have b: "ingest_document secret embedding_function index_name cs pdf_hash s = (None, s)"
    if "outage (s index_name) = None \<and> r \<in> set (stored (s index_name)) \<and> rec_doc_hash r = pdf_hash"
    for r s cs
    using already_indexed_present [of "s index_name" r pdf_hash] that
    by (simp add: ingest_document_def)
  have c: "ingest_document secret embedding_function index_name chunks' pdf_hash svc' = (None, svc')"
    if h: "index_name = lit ''rag-index'' \<and> chunks \<noteq> [] \<and> outage (svc index_name) = None \<and>
        ingest_document secret embedding_function index_name chunks pdf_hash svc = (Some (Inr ()), svc')"
    for svc' chunks'
  proof -
    from h have st: "store_chunks_in_pinecone secret chunks embedding_function index_name pdf_hash svc
                     = (Inr (), svc')"
      by (auto simp: ingest_document_def split: if_splits prod.splits)
    from h have name: "index_name = lit ''rag-index''" and ne: "chunks \<noteq> []"
      and up: "outage (svc index_name) = None"
      by blast+
    from store_chunks_makes_present [OF st ne]
    obtain r where r: "r \<in> set (stored (svc' index_name))" "rec_doc_hash r = pdf_hash"
      unfolding name by blast
    have "outage (svc' index_name) = outage (svc index_name)"
      using store_chunks_outage [of secret chunks embedding_function index_name pdf_hash svc index_name]
      by (simp only: st snd_conv)
    with up have "outage (svc' index_name) = None"
      by simp
    with r b [of svc' r chunks'] show ?thesis by simp
  qed
  from a b [of svc _ chunks] c show ?thesis by blast
qed

text \<open>
  The theorem at an index that holds the fingerprint, and at an empty index into which
  the same document is ingested twice: the first ingestion makes two upsert calls, the
  second none.
\<close>

theorem ingest_document_skips_indexed_witness:
  "index_query
       ((\<lambda>_. \<lparr>stored = [\<lparr>rec_vector = [1], rec_text = lit ''a'', rec_doc_hash = lit ''ab12'',
                              rec_chunk_id = 0\<rparr>],
               upsert_calls = 1, outage = None\<rparr>) (lit ''rag-index''))
       (replicate 1536 0) 1 (DocHashEq (lit ''ab12''))
     = Inr [\<lparr>rec_vector = [1], rec_text = lit ''a'', rec_doc_hash = lit ''ab12'', rec_chunk_id = 0\<rparr>]
   \<and> ingest_document (Inr (lit ''key'')) (\<lambda>t. Inr [1]) (lit ''rag-index'') [lit ''a'', lit ''b'']
       (lit ''ab12'')
       (\<lambda>_. \<lparr>stored = [\<lparr>rec_vector = [1], rec_text = lit ''a'', rec_doc_hash = lit ''ab12'',
                             rec_chunk_id = 0\<rparr>],
              upsert_calls = 1, outage = None\<rparr>)
     = (None,
        \<lambda>_. \<lparr>stored = [\<lparr>rec_vector = [1], rec_text = lit ''a'', rec_doc_hash = lit ''ab12'',
                             rec_chunk_id = 0\<rparr>],
              upsert_calls = 1, outage = None\<rparr>)
   \<and> fst (ingest_document (Inr (lit ''key'')) (\<lambda>t. Inr [1]) (lit ''rag-index'') [lit ''a'', lit ''b'']
         (lit ''ab12'') (\<lambda>_. \<lparr>stored = [], upsert_calls = 0, outage = None\<rparr>))
     = Some (Inr ())
   \<and> upsert_calls
       (snd (ingest_document (Inr (lit ''key'')) (\<lambda>t. Inr [1]) (lit ''rag-index'') [lit ''a'', lit ''b'']
          (lit ''ab12'') (\<lambda>_. \<lparr>stored = [], upsert_calls = 0, outage = None\<rparr>)) (lit ''rag-index''))
     = 2
   \<and> ingest_document (Inr (lit ''key'')) (\<lambda>t. Inr [1]) (lit ''rag-index'') [lit ''a'', lit ''b'']
       (lit ''ab12'')
       (snd (ingest_document (Inr (lit ''key'')) (\<lambda>t. Inr [1]) (lit ''rag-index'') [lit ''a'', lit ''b'']
          (lit ''ab12'') (\<lambda>_. \<lparr>stored = [], upsert_calls = 0, outage = None\<rparr>)))
     = (None,
        snd (ingest_document (Inr (lit ''key'')) (\<lambda>t. Inr [1]) (lit ''rag-index'') [lit ''a'', lit ''b'']
          (lit ''ab12'') (\<lambda>_. \<lparr>stored = [], upsert_calls = 0, outage = None\<rparr>)))"
proof -
  let ?r = "\<lparr>rec_vector = [1], rec_text = lit ''a'', rec_doc_hash = lit ''ab12'', rec_chunk_id = 0\<rparr>"
  let ?svc1 = "\<lambda>_ :: pystr. \<lparr>stored = [?r], upsert_calls = 1, outage = None\<rparr>"
  let ?svc0 = "\<lambda>_ :: pystr. \<lparr>stored = [], upsert_calls = 0, outage = None\<rparr>"
  let ?secret = "Inr (lit ''key'') :: pystr + pystr"
  let ?emb = "\<lambda>t :: pystr. Inr [1] :: pystr + real list"
  let ?name = "lit ''rag-index''"
  let ?chunks = "[lit ''a'', lit ''b'']"
  let ?h = "lit ''ab12''"
  have q: "index_query (?svc1 ?name) (replicate 1536 0) 1 (DocHashEq ?h) = Inr [?r]"
    by (simp add: index_query_def)
  note t1 = ingest_document_skips_indexed [of ?svc1 ?name ?h ?secret ?emb ?chunks]
  from q have "index_query (?svc1 ?name) (replicate 1536 0) 1 (DocHashEq ?h) = Inr [?r] \<and> [?r] \<noteq> []"
    by simp
  with t1 [THEN conjunct1, THEN spec]
  have skip: "ingest_document ?secret ?emb ?name ?chunks ?h ?svc1 = (None, ?svc1)"
    by (rule mp)
  let ?first = "ingest_document ?secret ?emb ?name ?chunks ?h ?svc0"
  have up: "[0..<length ?chunks] = [0, 1]"
    by (simp add: upt_rec)
  have one: "fst ?first = Some (Inr ())"
    by (simp add: ingest_document_def is_document_already_indexed_def index_query_def
          store_chunks_in_pinecone_def Let_def up)
  have calls: "upsert_calls (snd ?first ?name) = 2"
    by (simp add: ingest_document_def is_document_already_indexed_def index_query_def
          store_chunks_in_pinecone_def Let_def up)
  from one have whole: "?first = (Some (Inr ()), snd ?first)"
    by (metis prod.collapse)
  note t0 = ingest_document_skips_indexed [of ?svc0 ?name ?h ?secret ?emb ?chunks]
  have "?name = lit ''rag-index'' \<and> ?chunks \<noteq> [] \<and> outage (?svc0 ?name) = None \<and>
        ?first = (Some (Inr ()), snd ?first)"
    using whole by simp
  with t0 [THEN conjunct2, THEN conjunct2, THEN spec, THEN spec]
  have again: "ingest_document ?secret ?emb ?name ?chunks ?h (snd ?first) = (None, snd ?first)"
    by (rule mp)
  from q skip one calls again show ?thesis by (intro conjI)
qed

section \<open>Content fingerprinter: the form of the digest\<close>

lemma is_lower_hex_iff: "is_lower_hex c \<longleftrightarrow> (48 \<le> c \<and> c \<le> 57) \<or> (97 \<le> c \<and> c \<le> 102)"
  unfolding is_lower_hex_def by (simp, arith)

lemma hex_digit_lower_hex: "n < 16 \<Longrightarrow> is_lower_hex (hex_digit n)"
  by (simp add: is_lower_hex_iff hex_digit_def)

lemma unat_nibble: "unat (w AND 15 :: 32 word) < 16"
proof -
  have "unat (w AND 15) \<le> unat (15 :: 32 word)"
    by (rule word_and_le1 [THEN word_le_nat_alt [THEN iffD1]])
  then show ?thesis by simp
qed

lemma length_hex_word: "length (hex_word w) = 8"
  by (simp add: hex_word_def)

lemma hex_word_lower_hex: "list_all is_lower_hex (hex_word w)"
  by (simp add: hex_word_def hex_digit_lower_hex unat_nibble)

lemma length_hexdigest: "length (hexdigest H) = 64"
  by (cases H rule: hexdigest.cases) (simp add: length_hex_word)

lemma hexdigest_lower_hex: "list_all is_lower_hex (hexdigest H)"
  by (cases H rule: hexdigest.cases) (simp add: hex_word_lower_hex)

text \<open>The model of SHA-256 on the standard's test message \<open>"abc"\<close>.\<close>

lemma get_pdf_hash_abc:
  "get_pdf_hash [0x61, 0x62, 0x63]
     = lit ''ba7816bf8f01cfea414140de5dae2223b00361a396177a9cb410ff61f20015ad''"
  by code_simp

text \<open>The computation on the standard's one-block and two-block test messages.\<close>

lemma get_pdf_hash_two_blocks:
  "get_pdf_hash (map of_nat (lit ''abcdbcdecdefdefgefghfghighijhijkijkljklmklmnlmnomnopnopq''))
     = lit ''248d6a61d20638b8e5c026930c3e6039a33ce45964ff2167f6ecedd419db06c1''"
  by code_simp

subsection \<open>Words and bytes\<close>

lemma nat_shift_or: "y < 256 \<Longrightarrow> 256 * x + y = push_bit 8 x OR (y :: nat)"
proof -
  assume y: "y < 256"
  then have ty: "take_bit 8 y = y"
    by (simp add: take_bit_eq_mod)
  have "push_bit 8 x + y = push_bit 8 x OR y"
  proof (rule disjunctive_add)
    fix n
    from ty have "bit y n \<longleftrightarrow> bit (take_bit 8 y) n" by simp
    then show "\<not> bit (push_bit 8 x) n \<or> \<not> bit y n"
      by (auto simp: bit_simps)
  qed
  then show ?thesis by (simp add: push_bit_eq_mult mult.commute)
qed

lemma be_value4:
  "be_value [a, b, c, d :: 8 word]
   = push_bit 24 (unat a) OR push_bit 16 (unat b) OR push_bit 8 (unat c) OR unat d"
proof -
  have lt: "unat x < 256" for x :: "8 word"
    using unsigned_less [of x, where ?'a = nat] by simp
  have "be_value [a, b, c, d] = 256 * (256 * (256 * unat a + unat b) + unat c) + unat d"
    by (simp add: be_value_def)
  also have "\<dots> = push_bit 8 (push_bit 8 (push_bit 8 (unat a) OR unat b) OR unat c) OR unat d"
    by (simp only: nat_shift_or [OF lt])
  also have "\<dots> = push_bit 24 (unat a) OR push_bit 16 (unat b) OR push_bit 8 (unat c) OR unat d"
    by (simp add: push_bit_or or.assoc)
  finally show ?thesis .
qed

lemma be_word_of_bytes:
  "(push_bit 24 (ucast a) OR push_bit 16 (ucast b) OR push_bit 8 (ucast c) OR ucast d :: 32 word)
   = of_nat (be_value [a, b, c, d :: 8 word])"
  by (simp add: be_value4 of_nat_or_eq of_nat_push_bit or.assoc)

lemma byte_of_nat_eq:
  "(ucast (drop_bit (8 * i) (of_nat L :: 64 word)) :: 8 word) = of_nat (L div 256 ^ i mod 256)"
  if "i < 8"
proof -
  have p: "(256 :: nat) ^ i = 2 ^ (8 * i)"
    by (simp add: power_mult)
  have "L div 256 ^ i mod 256 = take_bit 8 (drop_bit (8 * i) L)"
    by (simp add: p take_bit_eq_mod drop_bit_eq_div)
  then show ?thesis
    using that by (auto intro!: bit_word_eqI simp: bit_simps)
qed

lemma unat_drop_bit_nibble: "unat (drop_bit n w AND 15 :: 32 word) = unat w div 2 ^ n mod 16"
proof -
  have "drop_bit n w AND 15 = take_bit 4 (drop_bit n w)"
    by (simp add: take_bit_eq_mask mask_eq_exp_minus_1)
  then have "unat (drop_bit n w AND 15) = unat (take_bit 4 (drop_bit n w))"
    by (simp only:)
  also have "\<dots> = take_bit 4 (drop_bit n (unat w))"
    by (simp only: unsigned_take_bit_eq unat_drop_bit_eq)
  also have "\<dots> = unat w div 2 ^ n mod 16"
    by (simp add: take_bit_eq_mod drop_bit_eq_div)
  finally show ?thesis .
qed

subsection \<open>Padding\<close>

lemma hd_filter_upt:
  assumes "k < m" and "P k" and "\<And>j. j < k \<Longrightarrow> \<not> P j"
  shows "hd (filter P [0..<m]) = k"
proof -
  from assms(1) obtain d where m: "m = k + d"
    using less_imp_add_positive by blast
  have "[0..<k + d] = [0..<k] @ [k..<k + d]"
    by (rule upt_add_eq_append) simp
  moreover from assms(1) have "[k..<m] = k # [Suc k..<m]"
    by (rule upt_conv_Cons)
  ultimately have "[0..<m] = [0..<k] @ k # [Suc k..<m]"
    by (simp add: m)
  moreover from assms(3) have "filter P [0..<k] = []"
    by (simp add: filter_empty_conv)
  ultimately show ?thesis using assms(2) by simp
qed

lemma mod64_reduce: "(n + 1 + j) mod 64 = (n mod 64 + 1 + j) mod (64 :: nat)"
proof -
  have "(n + (1 + j)) mod 64 = (n mod 64 + (1 + j)) mod 64"
    by (rule mod_add_left_eq [symmetric])
  then show ?thesis by (simp only: add.assoc)
qed

lemma zero_count:
  fixes r :: nat
  assumes "r < 64"
  shows "(119 - r) mod 64 = (if r \<le> 55 then 55 - r else 119 - r)"
proof (cases "r \<le> 55")
  case True
  then have "119 - r = 64 + (55 - r)" by simp
  then have "(119 - r) mod 64 = (64 + (55 - r)) mod 64" by (rule arg_cong)
  also have "\<dots> = 55 - r" by simp
  finally show ?thesis using True by simp
next
  case False
  with assms have "119 - r < 64" by simp
  then have "(119 - r) mod 64 = 119 - r" by (rule mod_less)
  then show ?thesis using False by simp
qed

lemma zero_step:
  fixes r :: nat
  assumes "r < 64"
  shows "(r + 1 + (119 - r) mod 64) mod 64 = 56"
proof (cases "r \<le> 55")
  case True
  with zero_count [OF assms] have "r + 1 + (119 - r) mod 64 = 56" by simp
  then have "(r + 1 + (119 - r) mod 64) mod 64 = 56 mod 64" by (rule arg_cong)
  then show ?thesis by simp
next
  case False
  with assms zero_count [OF assms] have "r + 1 + (119 - r) mod 64 = 64 + 56" by simp
  then have "(r + 1 + (119 - r) mod 64) mod 64 = (64 + 56) mod 64" by (rule arg_cong)
  then show ?thesis by simp
qed

lemma zero_min:
  fixes r :: nat
  assumes "r < 64" and "j < (119 - r) mod 64"
  shows "(r + 1 + j) mod 64 \<noteq> 56"
proof (cases "r \<le> 55")
  case True
  with zero_count [OF assms(1)] assms(2) have lt: "r + 1 + j < 56" by simp
  then have "r + 1 + j < 64" by simp
  then have "(r + 1 + j) mod 64 = r + 1 + j" by (rule mod_less)
  with lt show ?thesis by linarith
next
  case False
  with zero_count [OF assms(1)] assms have b: "57 \<le> r + 1 + j" "r + 1 + j < 120" by simp_all
  show ?thesis
  proof (cases "r + 1 + j < 64")
    case True
    then have "(r + 1 + j) mod 64 = r + 1 + j" by (rule mod_less)
    with b show ?thesis by linarith
  next
    case False
    define d where "d = r + 1 + j - 64"
    with False b have d: "r + 1 + j = d + 64" "d < 56" by simp_all
    have "(d + 64) mod 64 = d mod 64" by (rule mod_add_self2)
    moreover from d(2) have "d mod 64 = d" by simp
    ultimately have "(r + 1 + j) mod 64 = d" by (simp only: d(1))
    with d(2) show ?thesis by linarith
  qed
qed

lemma zero_bytes_eq:
  "hd (filter (\<lambda>z. (n + 1 + z) mod 64 = 56) [0..<64]) = (119 - n mod 64) mod 64"
proof (rule hd_filter_upt)
  have r: "n mod 64 < 64" by simp
  show "(119 - n mod 64) mod 64 < 64" by simp
  show "(n + 1 + (119 - n mod 64) mod 64) mod 64 = 56"
    by (simp only: mod64_reduce [of n] zero_step [OF r])
  show "\<not> (n + 1 + j) mod 64 = 56" if "j < (119 - n mod 64) mod 64" for j
    using zero_min [OF r that] by (simp only: mod64_reduce [of n j] not_False_eq_True)
qed

lemma length_be_bytes: "length (be_bytes n v) = n"
  by (simp add: be_bytes_def)

lemma be_bytes_8:
  "be_bytes 8 L =
     [of_nat (L div 256 ^ 7 mod 256), of_nat (L div 256 ^ 6 mod 256), of_nat (L div 256 ^ 5 mod 256),
      of_nat (L div 256 ^ 4 mod 256), of_nat (L div 256 ^ 3 mod 256), of_nat (L div 256 ^ 2 mod 256),
      of_nat (L div 256 ^ 1 mod 256), of_nat (L div 256 ^ 0 mod 256)]"
proof -
  have "[0..<8] = [0, 1, 2, 3, 4, 5, 6, 7 :: nat]"
    by (simp add: upt_rec)
  then have "be_bytes 8 L = map (\<lambda>i. of_nat (L div 256 ^ (8 - 1 - i) mod 256)) [0, 1, 2, 3, 4, 5, 6, 7]"
    by (simp only: be_bytes_def)
  also have "\<dots> = [of_nat (L div 256 ^ (8 - 1 - 0) mod 256), of_nat (L div 256 ^ (8 - 1 - 1) mod 256),
      of_nat (L div 256 ^ (8 - 1 - 2) mod 256), of_nat (L div 256 ^ (8 - 1 - 3) mod 256),
      of_nat (L div 256 ^ (8 - 1 - 4) mod 256), of_nat (L div 256 ^ (8 - 1 - 5) mod 256),
      of_nat (L div 256 ^ (8 - 1 - 6) mod 256), of_nat (L div 256 ^ (8 - 1 - 7) mod 256)]"
    by (simp only: list.map)
  also have "(8 :: nat) - 1 - 0 = 7" by simp
  also have "(8 :: nat) - 1 - 1 = 6" by simp
  also have "(8 :: nat) - 1 - 2 = 5" by simp
  also have "(8 :: nat) - 1 - 3 = 4" by simp
  also have "(8 :: nat) - 1 - 4 = 3" by simp
  also have "(8 :: nat) - 1 - 5 = 2" by simp
  also have "(8 :: nat) - 1 - 6 = 1" by simp
  also have "(8 :: nat) - 1 - 7 = 0" by simp
  finally show ?thesis .
qed

lemma length_bytes_eq:
  "map (\<lambda>i. ucast (drop_bit (8 * i) (of_nat L :: 64 word))) [7, 6, 5, 4, 3, 2, 1, 0]
   = be_bytes 8 L"
  by (simp only: be_bytes_8 list.map byte_of_nat_eq [symmetric] less_numeral_extra
        numeral_less_iff Num.less_num_simps zero_less_numeral one_less_numeral_iff
        semiring_norm)

lemma sha256_pad_fips: "sha256_pad M = fips_pad M"
  by (simp only: sha256_pad_def fips_pad_def zero_bytes_eq length_bytes_eq)

lemma length_fips_pad: "length (fips_pad M) mod 64 = 0"
proof -
  let ?x = "length M + 1 + (119 - length M mod 64) mod 64"
  have "length (fips_pad M) = ?x + 8"
    unfolding fips_pad_def zero_bytes_eq by (simp add: length_be_bytes)
  then have "length (fips_pad M) mod 64 = (?x + 8) mod 64"
    by (rule arg_cong)
  also have "\<dots> = (?x mod 64 + 8) mod 64"
    by (rule mod_add_left_eq [symmetric])
  also have "?x mod 64 = 56"
  proof -
    have r: "length M mod 64 < 64" by simp
    show ?thesis
      by (simp only: mod64_reduce [of "length M"] zero_step [OF r])
  qed
  finally show ?thesis by simp
qed

subsection \<open>Message schedule and rounds\<close>

lemma schedule_fips_W:
  assumes "w = map (fips_W M) [0..<k]" and "16 \<le> k"
  shows "schedule n w = map (fips_W M) [0..<k + n]"
  using assms
proof (induction n arbitrary: w k)
  case 0
  then show ?case by simp
next
  case (Suc n)
  let ?new = "small_sigma1 (w ! (length w - 2)) + w ! (length w - 7) +
              small_sigma0 (w ! (length w - 15)) + w ! (length w - 16)"
  from Suc.prems have len: "length w = k" by simp
  have nth: "w ! (k - d) = fips_W M (k - d)" if "0 < d" "d \<le> k" for d
    using that Suc.prems by simp
  from Suc.prems(2) have "?new = small_sigma1 (fips_W M (k - 2)) + fips_W M (k - 7) +
              small_sigma0 (fips_W M (k - 15)) + fips_W M (k - 16)"
    by (simp add: len nth)
  also from Suc.prems(2) have "\<dots> = fips_W M k"
    by (subst (5) fips_W.simps) simp
  finally have "w @ [?new] = map (fips_W M) [0..<Suc k]"
    using Suc.prems(1) by simp
  moreover from Suc.prems(2) have "16 \<le> Suc k" by simp
  ultimately have "schedule n (w @ [?new]) = map (fips_W M) [0..<Suc k + n]"
    by (rule Suc.IH)
  then show ?case by simp
qed

lemma length_sha256_K: "length sha256_K = 64"
  by (simp add: sha256_K_def)

lemma sha256_round_fips:
  "sha256_round (fips_vars M H t) (sha256_K ! t, fips_W M t) = fips_vars M H (Suc t)"
  by (cases "fips_vars M H t" rule: hexdigest.cases) (simp add: Let_def)

lemma rounds_fips_vars:
  "t \<le> 64 \<Longrightarrow>
   foldl sha256_round H (zip (take t sha256_K) (map (fips_W M) [0..<t])) = fips_vars M H t"
proof (induction t)
  case 0
  then show ?case by simp
next
  case (Suc t)
  then have t: "t < length sha256_K" by (simp add: length_sha256_K)
  then have "take (Suc t) sha256_K = take t sha256_K @ [sha256_K ! t]"
    by (rule take_Suc_conv_app_nth)
  moreover have "map (fips_W M) [0..<Suc t] = map (fips_W M) [0..<t] @ [fips_W M t]"
    by simp
  moreover have "length (take t sha256_K) = length (map (fips_W M) [0..<t])"
    using t by simp
  ultimately have "zip (take (Suc t) sha256_K) (map (fips_W M) [0..<Suc t])
      = zip (take t sha256_K) (map (fips_W M) [0..<t]) @ [(sha256_K ! t, fips_W M t)]"
    by (simp only: zip_append zip.simps list.case)
  then have "foldl sha256_round H (zip (take (Suc t) sha256_K) (map (fips_W M) [0..<Suc t]))
      = sha256_round (foldl sha256_round H (zip (take t sha256_K) (map (fips_W M) [0..<t])))
          (sha256_K ! t, fips_W M t)"
    by (simp only: foldl_append foldl.simps)
  also from Suc have "\<dots> = sha256_round (fips_vars M H t) (sha256_K ! t, fips_W M t)"
    by simp
  also have "\<dots> = fips_vars M H (Suc t)"
    by (rule sha256_round_fips)
  finally show ?case .
qed

subsection \<open>Blocks\<close>

lemma drop4: "drop (4 + k) (a # b # c # d # rest) = drop k rest"
proof -
  have "drop (k + 4) (a # b # c # d # rest) = drop k (drop 4 (a # b # c # d # rest))"
    by (rule drop_drop [symmetric])
  then show ?thesis by (simp add: add.commute)
qed

lemma be_words_be_value:
  "length bs = 4 * n \<Longrightarrow>
   be_words bs = map (\<lambda>j. of_nat (be_value (take 4 (drop (4 * j) bs)))) [0..<n]"
proof (induction n arbitrary: bs)
  case 0
  then show ?case by simp
next
  case (Suc n)
  then obtain a b c d rest where bs: "bs = a # b # c # d # rest" and rest: "length rest = 4 * n"
    by (auto simp: length_Suc_conv numeral_eq_Suc)
  have "be_words bs = of_nat (be_value [a, b, c, d]) # be_words rest"
    by (simp only: bs be_words.simps be_word_of_bytes)
  also have "be_words rest = map (\<lambda>j. of_nat (be_value (take 4 (drop (4 * j) rest)))) [0..<n]"
    using rest by (rule Suc.IH)
  also have "of_nat (be_value [a, b, c, d]) #
        map (\<lambda>j. of_nat (be_value (take 4 (drop (4 * j) rest)))) [0..<n]
      = map (\<lambda>j. of_nat (be_value (take 4 (drop (4 * j) bs)))) [0..<Suc n]"
    by (simp add: bs map_upt_Suc drop4 del: upt_Suc)
  finally show ?case .
qed

lemma block_words:
  assumes "64 * Suc i \<le> length padded"
  shows "be_words (take 64 (drop (64 * i) padded)) = map (fips_M padded i) [0..<16]"
proof -
  let ?block = "take 64 (drop (64 * i) padded)"
  from assms have len: "length ?block = 4 * 16" by simp
  have "take 4 (drop (4 * j) ?block) = take 4 (drop (64 * i + 4 * j) padded)" if "j < 16" for j
  proof -
    have "drop (4 * j) ?block = take (64 - 4 * j) (drop (4 * j) (drop (64 * i) padded))"
      by (rule drop_take)
    moreover from that have "min 4 (64 - 4 * j) = 4" by simp
    ultimately show ?thesis by (simp add: add.commute)
  qed
  then have "map (\<lambda>j. of_nat (be_value (take 4 (drop (4 * j) ?block))) :: 32 word) [0..<16]
      = map (fips_M padded i) [0..<16]"
    by (simp add: fips_M_def)
  with be_words_be_value [OF len] show ?thesis by simp
qed

lemma compress_fips:
  assumes "64 * Suc i \<le> length padded"
  shows "sha256_compress (fips_H padded i) (take 64 (drop (64 * i) padded)) = fips_H padded (Suc i)"
proof -
  let ?M = "fips_M padded i"
  let ?H = "fips_H padded i"
  have mw: "map ?M [0..<16] = map (fips_W ?M) [0..<16]"
    by (rule map_cong) (simp_all add: fips_W.simps [of ?M])
  have "schedule 48 (be_words (take 64 (drop (64 * i) padded)))
      = schedule 48 (map (fips_W ?M) [0..<16])"
    by (simp only: block_words [OF assms] mw)
  also have "\<dots> = map (fips_W ?M) [0..<16 + 48]"
    by (rule schedule_fips_W) simp_all
  finally have "schedule 48 (be_words (take 64 (drop (64 * i) padded))) = map (fips_W ?M) [0..<64]"
    by simp
  moreover have "take 64 sha256_K = sha256_K"
    by (simp add: length_sha256_K)
  ultimately have "foldl sha256_round ?H
        (zip sha256_K (schedule 48 (be_words (take 64 (drop (64 * i) padded)))))
      = fips_vars ?M ?H 64"
    using rounds_fips_vars [of 64 ?H ?M] by simp
  then have "sha256_compress ?H (take 64 (drop (64 * i) padded)) = add_state ?H (fips_vars ?M ?H 64)"
    by (simp only: sha256_compress_def)
  also have "\<dots> = fips_H padded (Suc i)"
    by (cases ?H rule: hexdigest.cases, cases "fips_vars ?M ?H 64" rule: hexdigest.cases)
       (simp add: Let_def add.commute)
  finally show ?thesis .
qed

lemma blocks_fips:
  "64 * (i + n) \<le> length padded \<Longrightarrow>
   sha256_blocks n (fips_H padded i) (drop (64 * i) padded) = fips_H padded (i + n)"
proof (induction n arbitrary: i)
  case 0
  then show ?case by simp
next
  case (Suc n)
  then have le: "64 * Suc i \<le> length padded" and le': "64 * (Suc i + n) \<le> length padded"
    by simp_all
  have "sha256_blocks (Suc n) (fips_H padded i) (drop (64 * i) padded)
      = sha256_blocks n (sha256_compress (fips_H padded i) (take 64 (drop (64 * i) padded)))
          (drop 64 (drop (64 * i) padded))"
    by simp
  also have "drop 64 (drop (64 * i) padded) = drop (64 * Suc i) padded"
    by (simp add: add.commute)
  also have "sha256_compress (fips_H padded i) (take 64 (drop (64 * i) padded)) = fips_H padded (Suc i)"
    using le by (rule compress_fips)
  also have "sha256_blocks n (fips_H padded (Suc i)) (drop (64 * Suc i) padded) = fips_H padded (Suc i + n)"
    using le' by (rule Suc.IH)
  finally show ?case by simp
qed

lemma sha256_fips_H: "sha256 M = fips_H (fips_pad M) (length (fips_pad M) div 64)"
proof -
  let ?p = "fips_pad M"
  have "64 * (0 + length ?p div 64) \<le> length ?p"
    by simp
  from blocks_fips [OF this] show ?thesis
    by (simp add: sha256_def sha256_pad_fips Let_def)
qed

subsection \<open>The digest\<close>

lemma byte_split:
  fixes y :: nat
  shows "y mod 256 div 16 = y div 16 mod 16" and "y mod 256 mod 16 = y mod 16"
proof -
  have e: "y mod 256 = 16 * (y div 16 mod 16) + y mod 16"
    using mod_mult2_eq [of y 16 16] by simp
  have "(16 * (y div 16 mod 16) + y mod 16) div 16 = y div 16 mod 16"
    by simp
  then show "y mod 256 div 16 = y div 16 mod 16"
    by (simp only: e)
  have "(16 * (y div 16 mod 16) + y mod 16) mod 16 = y mod 16"
    by simp
  then show "y mod 256 mod 16 = y mod 16"
    by (simp only: e)
qed

lemma hex_lower_byte:
  "hex_lower [of_nat (v div 2 ^ k mod 256)]
   = [hex_digit (v div 2 ^ (k + 4) mod 16), hex_digit (v div 2 ^ k mod 16)]"
proof -
  have "unat (of_nat (v div 2 ^ k mod 256) :: 8 word) = v div 2 ^ k mod 256"
    by (simp add: unat_of_nat)
  moreover have "v div 2 ^ k div 16 = v div 2 ^ (k + 4)"
    by (simp add: div_mult2_eq power_add)
  ultimately show ?thesis
    by (simp add: hex_lower_def byte_split)
qed

lemma hex_lower_append: "hex_lower (xs @ ys) = hex_lower xs @ hex_lower ys"
  by (simp add: hex_lower_def)

lemma be_bytes_4:
  "be_bytes 4 v =
     [of_nat (v div 2 ^ 24 mod 256)] @ [of_nat (v div 2 ^ 16 mod 256)] @
     [of_nat (v div 2 ^ 8 mod 256)] @ [of_nat (v div 2 ^ 0 mod 256)]"
proof -
  have "[0..<4] = [0, 1, 2, 3 :: nat]"
    by (simp add: upt_rec)
  then show ?thesis
    by (simp add: be_bytes_def)
qed

lemma hex_word_be_bytes: "hex_word w = hex_lower (be_bytes 4 (unat w))"
proof -
  have "hex_lower (be_bytes 4 (unat w))
      = [hex_digit (unat w div 2 ^ (24 + 4) mod 16), hex_digit (unat w div 2 ^ 24 mod 16),
         hex_digit (unat w div 2 ^ (16 + 4) mod 16), hex_digit (unat w div 2 ^ 16 mod 16),
         hex_digit (unat w div 2 ^ (8 + 4) mod 16), hex_digit (unat w div 2 ^ 8 mod 16),
         hex_digit (unat w div 2 ^ (0 + 4) mod 16), hex_digit (unat w div 2 ^ 0 mod 16)]"
    by (simp only: be_bytes_4 hex_lower_append hex_lower_byte, simp only: append.simps)
  moreover have "hex_word w
      = [hex_digit (unat w div 2 ^ (4 * 7) mod 16), hex_digit (unat w div 2 ^ (4 * 6) mod 16),
         hex_digit (unat w div 2 ^ (4 * 5) mod 16), hex_digit (unat w div 2 ^ (4 * 4) mod 16),
         hex_digit (unat w div 2 ^ (4 * 3) mod 16), hex_digit (unat w div 2 ^ (4 * 2) mod 16),
         hex_digit (unat w div 2 ^ (4 * 1) mod 16), hex_digit (unat w div 2 ^ (4 * 0) mod 16)]"
    by (simp only: hex_word_def list.map unat_drop_bit_nibble)
  ultimately show ?thesis by simp
qed

lemma hexdigest_fips:
  "hexdigest (H0, H1, H2, H3, H4, H5, H6, H7)
   = hex_lower (concat (map (\<lambda>w. be_bytes 4 (unat w)) [H0, H1, H2, H3, H4, H5, H6, H7]))"
  by (simp add: hex_word_be_bytes hex_lower_append)

lemma length_fips_sha256: "length (fips_sha256 M) = 32"
  by (cases "fips_H (fips_pad M) (length (fips_pad M) div 64)" rule: hexdigest.cases)
     (simp add: fips_sha256_def length_be_bytes)

lemma get_pdf_hash_fips: "get_pdf_hash M = hex_lower (fips_sha256 M)"
  by (cases "fips_H (fips_pad M) (length (fips_pad M) div 64)" rule: hexdigest.cases)
     (simp add: get_pdf_hash_def sha256_fips_H fips_sha256_def hexdigest_fips del: hexdigest.simps)

text \<open>
  Claim C7. For every byte string, \<open>get_pdf_hash\<close> equals the SHA-256 digest of the
  bytes, as FIPS 180-4 defines it, rendered in lowercase hexadecimal. The digest has 32
  bytes (256 bits), so the fingerprint is a string of exactly 64 characters, each one of
  \<open>0123456789abcdef\<close>; it is a function of the bytes alone, so identical bytes yield the
  identical fingerprint.
\<close>

theorem get_pdf_hash_fingerprint:
  "get_pdf_hash file_bytes = hex_lower (fips_sha256 file_bytes)
   \<and> length (fips_sha256 file_bytes) = 32
   \<and> length (get_pdf_hash file_bytes) = 64
   \<and> list_all is_lower_hex (get_pdf_hash file_bytes)
   \<and> (other_bytes = file_bytes \<longrightarrow> get_pdf_hash other_bytes = get_pdf_hash file_bytes)"
proof -
  have "get_pdf_hash file_bytes = hex_lower (fips_sha256 file_bytes)"
    by (rule get_pdf_hash_fips)
  moreover have "length (fips_sha256 file_bytes) = 32"
    by (rule length_fips_sha256)
  moreover have "length (get_pdf_hash file_bytes) = 64"
    by (simp add: get_pdf_hash_def length_hexdigest)
  moreover have "list_all is_lower_hex (get_pdf_hash file_bytes)"
    by (simp add: get_pdf_hash_def hexdigest_lower_hex)
  ultimately show ?thesis by simp
qed

text \<open>
  The theorem at the standard's test messages \<open>"abc"\<close> (one block) and
  \<open>"abcdbcdecdefdefgefghfghighijhijkijkljklmklmnlmnomnopnopq"\<close> (two blocks), with the
  digests the standard gives for them.
\<close>

theorem get_pdf_hash_fingerprint_witness:
  "get_pdf_hash [0x61, 0x62, 0x63]
     = lit ''ba7816bf8f01cfea414140de5dae2223b00361a396177a9cb410ff61f20015ad''
   \<and> hex_lower (fips_sha256 [0x61, 0x62, 0x63])
     = lit ''ba7816bf8f01cfea414140de5dae2223b00361a396177a9cb410ff61f20015ad''
   \<and> get_pdf_hash (map of_nat (lit ''abcdbcdecdefdefgefghfghighijhijkijkljklmklmnlmnomnopnopq''))
     = lit ''248d6a61d20638b8e5c026930c3e6039a33ce45964ff2167f6ecedd419db06c1''
   \<and> hex_lower (fips_sha256 (map of_nat (lit ''abcdbcdecdefdefgefghfghighijhijkijkljklmklmnlmnomnopnopq'')))
     = lit ''248d6a61d20638b8e5c026930c3e6039a33ce45964ff2167f6ecedd419db06c1''
   \<and> length (get_pdf_hash [0x61, 0x62, 0x63]) = 64
   \<and> list_all is_lower_hex (get_pdf_hash [0x61, 0x62, 0x63])
   \<and> get_pdf_hash ([0x61] @ [0x62, 0x63]) = get_pdf_hash [0x61, 0x62, 0x63]"
proof -
  let ?two = "map of_nat (lit ''abcdbcdecdefdefgefghfghighijhijkijkljklmklmnlmnomnopnopq'') :: bytes"
  note t = get_pdf_hash_fingerprint [of "[0x61, 0x62, 0x63]" "[0x61] @ [0x62, 0x63]"]
  note u = get_pdf_hash_fingerprint [of ?two ?two]
  from t have "get_pdf_hash [0x61, 0x62, 0x63] = hex_lower (fips_sha256 [0x61, 0x62, 0x63])"
    by (rule conjunct1)
  with get_pdf_hash_abc
  have spec1: "hex_lower (fips_sha256 [0x61, 0x62, 0x63])
     = lit ''ba7816bf8f01cfea414140de5dae2223b00361a396177a9cb410ff61f20015ad''"
    by (simp only:)
  from u have "get_pdf_hash ?two = hex_lower (fips_sha256 ?two)"
    by (rule conjunct1)
  with get_pdf_hash_two_blocks
  have spec2: "hex_lower (fips_sha256 ?two)
     = lit ''248d6a61d20638b8e5c026930c3e6039a33ce45964ff2167f6ecedd419db06c1''"
    by (simp only:)
  from t have len: "length (get_pdf_hash [0x61, 0x62, 0x63]) = 64"
    by (rule conjunct2 [THEN conjunct2, THEN conjunct1])
  from t have hex: "list_all is_lower_hex (get_pdf_hash [0x61, 0x62, 0x63])"
    by (rule conjunct2 [THEN conjunct2, THEN conjunct2, THEN conjunct1])
  have "[0x61] @ [0x62, 0x63] = [0x61, 0x62, 0x63 :: 8 word]"
    by simp
  with t [THEN conjunct2, THEN conjunct2, THEN conjunct2, THEN conjunct2]
  have same: "get_pdf_hash ([0x61] @ [0x62, 0x63]) = get_pdf_hash [0x61, 0x62, 0x63]"
    by (rule mp)
  from get_pdf_hash_abc spec1 get_pdf_hash_two_blocks spec2 len hex same show ?thesis
    by (intro conjI)
qed

end
